theory Spec2Isabelle
  imports Main "HOL-Library.Monad_Syntax" "HOL-Library.Multiset"
begin

section \<open>The red-black tree of RBT.hpp\<close>

text \<open>
  The tree is a linked structure of heap nodes with parent, left and right pointers.
  A pointer is an optional address: \<open>None\<close> is \<open>nullptr\<close>. The store maps the
  addresses that are allocated to their nodes. Every function runs in the option monad:
  \<open>None\<close> is the absence of a result, which is what C++ leaves of a call that reads or
  writes through a null or freed pointer, or of a loop that never ends.
\<close>

subsection \<open>Data\<close>

datatype e_color = BLACK | RED

type_synonym node_pointer = "nat option"

record 'a RBNode =
  parent :: node_pointer
  right :: node_pointer
  left :: node_pointer
  data :: 'a
  color :: e_color

text \<open>
  \<open>root\<close> is the member \<open>_root\<close>; \<open>mem\<close> is the store of the nodes that
  \<open>new\<close> has handed out and \<open>delete\<close> has not taken back; \<open>brk\<close> is the next
  address \<open>new\<close> hands out (addresses are never used twice).
\<close>

record 'a RBTree =
  root :: node_pointer
  mem :: "nat \<Rightarrow> 'a RBNode option"
  brk :: nat

text \<open>The constructor \<open>RBTree() : _root(nullptr)\<close>.\<close>

definition empty_tree :: "'a RBTree" where
  "empty_tree = \<lparr>root = None, mem = (\<lambda>_. None), brk = 0\<rparr>"

subsection \<open>Reading and writing through pointers\<close>

text \<open>\<open>deref t p\<close> is \<open>*p\<close>: no result for a null or a freed pointer.\<close>

definition deref :: "'a RBTree \<Rightarrow> node_pointer \<Rightarrow> 'a RBNode option" where
  "deref t p = (case p of None \<Rightarrow> None | Some a \<Rightarrow> mem t a)"

text \<open>\<open>fld f p t\<close> is the read \<open>p->f\<close>.\<close>

definition fld :: "('a RBNode \<Rightarrow> 'b) \<Rightarrow> node_pointer \<Rightarrow> 'a RBTree \<Rightarrow> 'b option" where
  "fld f p t = map_option f (deref t p)"

text \<open>\<open>store p g t\<close> is a write to a field of \<open>*p\<close>: the node becomes \<open>g\<close> of itself.\<close>

definition store :: "node_pointer \<Rightarrow> ('a RBNode \<Rightarrow> 'a RBNode) \<Rightarrow> 'a RBTree \<Rightarrow> 'a RBTree option" where
  "store p g t =
     (case p of
        None \<Rightarrow> None
      | Some a \<Rightarrow> (case mem t a of
                    None \<Rightarrow> None
                  | Some n \<Rightarrow> Some (t\<lparr>mem := (mem t)(a \<mapsto> g n)\<rparr>)))"

subsection \<open>Nodes\<close>

text \<open>\<open>createNode\<close>: a fresh node, red, with null links, holding the value.\<close>

definition createNode :: "'a \<Rightarrow> 'a RBTree \<Rightarrow> node_pointer \<times> 'a RBTree" where
  "createNode val t =
     (Some (brk t),
      t\<lparr>mem := (mem t)(brk t \<mapsto>
           \<lparr>parent = None, right = None, left = None, data = val, color = RED\<rparr>),
        brk := Suc (brk t)\<rparr>)"

text \<open>\<open>deleteNode\<close>: reads \<open>node->data\<close> to destroy it, then frees the node.\<close>

definition deleteNode :: "node_pointer \<Rightarrow> 'a RBTree \<Rightarrow> 'a RBTree option" where
  "deleteNode node t =
     (case node of
        None \<Rightarrow> None
      | Some a \<Rightarrow> (case mem t a of
                    None \<Rightarrow> None
                  | Some n \<Rightarrow> Some (t\<lparr>mem := (mem t)(a := None)\<rparr>)))"

subsection \<open>Rotations\<close>

definition rightRotate :: "node_pointer \<Rightarrow> 'a RBTree \<Rightarrow> 'a RBTree option" where
  "rightRotate node t = do {
     newNode \<leftarrow> fld left node t;
     nr \<leftarrow> fld right newNode t;
     t \<leftarrow> store node (\<lambda>n. n\<lparr>left := nr\<rparr>) t;
     nr \<leftarrow> fld right newNode t;
     t \<leftarrow> (if nr \<noteq> None then store nr (\<lambda>n. n\<lparr>parent := node\<rparr>) t else Some t);
     np \<leftarrow> fld parent node t;
     t \<leftarrow> store newNode (\<lambda>n. n\<lparr>parent := np\<rparr>) t;
     np \<leftarrow> fld parent node t;
     t \<leftarrow> (if np = None then Some (t\<lparr>root := newNode\<rparr>)
          else do {
            pr \<leftarrow> fld right np t;
            if node = pr then store np (\<lambda>n. n\<lparr>right := newNode\<rparr>) t
            else store np (\<lambda>n. n\<lparr>left := newNode\<rparr>) t
          });
     t \<leftarrow> store newNode (\<lambda>n. n\<lparr>right := node\<rparr>) t;
     store node (\<lambda>n. n\<lparr>parent := newNode\<rparr>) t
   }"

definition leftRotate :: "node_pointer \<Rightarrow> 'a RBTree \<Rightarrow> 'a RBTree option" where
  "leftRotate node t = do {
     newNode \<leftarrow> fld right node t;
     nl \<leftarrow> fld left newNode t;
     t \<leftarrow> store node (\<lambda>n. n\<lparr>right := nl\<rparr>) t;
     nl \<leftarrow> fld left newNode t;
     t \<leftarrow> (if nl \<noteq> None then store nl (\<lambda>n. n\<lparr>parent := node\<rparr>) t else Some t);
     np \<leftarrow> fld parent node t;
     t \<leftarrow> store newNode (\<lambda>n. n\<lparr>parent := np\<rparr>) t;
     np \<leftarrow> fld parent node t;
     t \<leftarrow> (if np = None then Some (t\<lparr>root := newNode\<rparr>)
          else do {
            pl \<leftarrow> fld left np t;
            if node = pl then store np (\<lambda>n. n\<lparr>left := newNode\<rparr>) t
            else store np (\<lambda>n. n\<lparr>right := newNode\<rparr>) t
          });
     t \<leftarrow> store newNode (\<lambda>n. n\<lparr>left := node\<rparr>) t;
     store node (\<lambda>n. n\<lparr>parent := newNode\<rparr>) t
   }"

subsection \<open>Insertion\<close>

text \<open>
  One round of the loop of \<open>fixInsertionViolations\<close>, entered when \<open>k->parent\<close> is
  red: the new \<open>k\<close> and the new tree.
\<close>

definition fixInsertion_body :: "node_pointer \<Rightarrow> 'a RBTree \<Rightarrow> (node_pointer \<times> 'a RBTree) option" where
  "fixInsertion_body k t = do {
     kp \<leftarrow> fld parent k t;
     kpp \<leftarrow> fld parent kp t;
     gr \<leftarrow> fld right kpp t;
     if kp = gr then do {
       uncle \<leftarrow> fld left kpp t;
       uc \<leftarrow> (if uncle \<noteq> None then fld color uncle t else Some BLACK);
       if uncle \<noteq> None \<and> uc = RED then do {
         t \<leftarrow> store uncle (\<lambda>n. n\<lparr>color := BLACK\<rparr>) t;
         kp \<leftarrow> fld parent k t;
         t \<leftarrow> store kp (\<lambda>n. n\<lparr>color := BLACK\<rparr>) t;
         kp \<leftarrow> fld parent k t;
         kpp \<leftarrow> fld parent kp t;
         t \<leftarrow> store kpp (\<lambda>n. n\<lparr>color := RED\<rparr>) t;
         kp \<leftarrow> fld parent k t;
         kpp \<leftarrow> fld parent kp t;
         Some (kpp, t)
       } else do {
         kp \<leftarrow> fld parent k t;
         pl \<leftarrow> fld left kp t;
         (k, t) \<leftarrow> (if k = pl then do { t \<leftarrow> rightRotate kp t; Some (kp, t) }
                    else Some (k, t));
         kp \<leftarrow> fld parent k t;
         t \<leftarrow> store kp (\<lambda>n. n\<lparr>color := BLACK\<rparr>) t;
         kp \<leftarrow> fld parent k t;
         kpp \<leftarrow> fld parent kp t;
         t \<leftarrow> store kpp (\<lambda>n. n\<lparr>color := RED\<rparr>) t;
         kp \<leftarrow> fld parent k t;
         kpp \<leftarrow> fld parent kp t;
         t \<leftarrow> leftRotate kpp t;
         Some (k, t)
       }
     } else do {
       uncle \<leftarrow> fld right kpp t;
       uc \<leftarrow> (if uncle \<noteq> None then fld color uncle t else Some BLACK);
       if uncle \<noteq> None \<and> uc = RED then do {
         t \<leftarrow> store uncle (\<lambda>n. n\<lparr>color := BLACK\<rparr>) t;
         kp \<leftarrow> fld parent k t;
         t \<leftarrow> store kp (\<lambda>n. n\<lparr>color := BLACK\<rparr>) t;
         kp \<leftarrow> fld parent k t;
         kpp \<leftarrow> fld parent kp t;
         t \<leftarrow> store kpp (\<lambda>n. n\<lparr>color := RED\<rparr>) t;
         kp \<leftarrow> fld parent k t;
         kpp \<leftarrow> fld parent kp t;
         Some (kpp, t)
       } else do {
         kp \<leftarrow> fld parent k t;
         pr \<leftarrow> fld right kp t;
         (k, t) \<leftarrow> (if k = pr then do { t \<leftarrow> leftRotate kp t; Some (kp, t) }
                    else Some (k, t));
         kp \<leftarrow> fld parent k t;
         t \<leftarrow> store kp (\<lambda>n. n\<lparr>color := BLACK\<rparr>) t;
         kp \<leftarrow> fld parent k t;
         kpp \<leftarrow> fld parent kp t;
         t \<leftarrow> store kpp (\<lambda>n. n\<lparr>color := RED\<rparr>) t;
         kp \<leftarrow> fld parent k t;
         kpp \<leftarrow> fld parent kp t;
         t \<leftarrow> rightRotate kpp t;
         Some (k, t)
       }
     }
   }"

text \<open>
  The loop \<open>while (k->parent->color == RED) { ...; if (k == _root) break; }\<close>.
\<close>

partial_function (option) fixInsertion_loop :: "node_pointer \<Rightarrow> 'a RBTree \<Rightarrow> 'a RBTree option" where
  "fixInsertion_loop k t = do {
     kp \<leftarrow> fld parent k t;
     pc \<leftarrow> fld color kp t;
     if pc = RED then do {
       (k', t') \<leftarrow> fixInsertion_body k t;
       if k' = root t' then Some t' else fixInsertion_loop k' t'
     } else Some t
   }"

definition fixInsertionViolations :: "node_pointer \<Rightarrow> 'a RBTree \<Rightarrow> 'a RBTree option" where
  "fixInsertionViolations k t = do {
     t \<leftarrow> fixInsertion_loop k t;
     store (root t) (\<lambda>n. n\<lparr>color := BLACK\<rparr>) t
   }"

text \<open>
  The descent of \<open>insert\<close>: \<open>while (curr_node != nullptr)\<close>, which returns the last
  node it has seen. \<open>cmp\<close> is an object of the template parameter \<open>Compare\<close>.
\<close>

partial_function (option) insert_descend ::
    "('a \<Rightarrow> 'a \<Rightarrow> bool) \<Rightarrow> 'a \<Rightarrow> node_pointer \<Rightarrow> node_pointer \<Rightarrow> 'a RBTree \<Rightarrow> node_pointer option" where
  "insert_descend cmp val curr_node par t =
     (if curr_node \<noteq> None then do {
        cn \<leftarrow> deref t curr_node;
        if cmp val (data cn) then insert_descend cmp val (left cn) curr_node t
        else insert_descend cmp val (right cn) curr_node t
      } else Some par)"

definition insert :: "('a \<Rightarrow> 'a \<Rightarrow> bool) \<Rightarrow> 'a \<Rightarrow> 'a RBTree \<Rightarrow> 'a RBTree option" where
  "insert cmp val t0 =
    (let (node, t) = createNode val t0 in
     if root t = None then do {
       let t = t\<lparr>root := node\<rparr>;
       store node (\<lambda>n. n\<lparr>color := BLACK\<rparr>) t
     } else do {
       par \<leftarrow> insert_descend cmp val (root t) None t;
       t \<leftarrow> store node (\<lambda>n. n\<lparr>parent := par\<rparr>) t;
       nd \<leftarrow> fld data node t;
       pd \<leftarrow> fld data par t;
       t \<leftarrow> (if cmp nd pd then store par (\<lambda>n. n\<lparr>left := node\<rparr>) t
            else store par (\<lambda>n. n\<lparr>right := node\<rparr>) t);
       fixInsertionViolations node t
     })"


subsection \<open>Removal\<close>

definition replaceNode :: "node_pointer \<Rightarrow> node_pointer \<Rightarrow> 'a RBTree \<Rightarrow> 'a RBTree option" where
  "replaceNode node replacement t = do {
     t \<leftarrow> (if node = root t then Some (t\<lparr>root := replacement\<rparr>)
          else do {
            np \<leftarrow> fld parent node t;
            pl \<leftarrow> fld left np t;
            if node = pl then store np (\<lambda>n. n\<lparr>left := replacement\<rparr>) t
            else store np (\<lambda>n. n\<lparr>right := replacement\<rparr>) t
          });
     if replacement \<noteq> None then do {
       np \<leftarrow> fld parent node t;
       store replacement (\<lambda>n. n\<lparr>parent := np\<rparr>) t
     } else Some t
   }"

text \<open>
  The loop \<open>while (p->left != nullptr) p = p->left\<close>, which \<open>remove\<close>, \<open>first\<close> and
  \<open>next_inorder\<close> each run on a pointer that is not null.
\<close>

partial_function (option) leftmost :: "node_pointer \<Rightarrow> 'a RBTree \<Rightarrow> node_pointer option" where
  "leftmost p t = do {
     l \<leftarrow> fld left p t;
     if l \<noteq> None then leftmost l t else Some p
   }"

text \<open>
  One round of the loop of \<open>fixDeleteViolations\<close>, entered when \<open>x\<close> is not the root
  and \<open>x->color\<close> is black. The source reads \<open>s->color\<close>, \<open>s->left->color\<close> and
  \<open>s->right->color\<close> with no test for null.
\<close>

definition fixDelete_body :: "node_pointer \<Rightarrow> 'a RBTree \<Rightarrow> (node_pointer \<times> 'a RBTree) option" where
  "fixDelete_body x t = do {
     xp \<leftarrow> fld parent x t;
     pl \<leftarrow> fld left xp t;
     if x = pl then do {
       s \<leftarrow> fld right xp t;
       sc \<leftarrow> fld color s t;
       (s, t) \<leftarrow> (if sc = RED then do {
           t \<leftarrow> store s (\<lambda>n. n\<lparr>color := BLACK\<rparr>) t;
           xp \<leftarrow> fld parent x t;
           t \<leftarrow> store xp (\<lambda>n. n\<lparr>color := RED\<rparr>) t;
           xp \<leftarrow> fld parent x t;
           t \<leftarrow> leftRotate xp t;
           xp \<leftarrow> fld parent x t;
           s \<leftarrow> fld right xp t;
           Some (s, t)
         } else Some (s, t));
       sl \<leftarrow> fld left s t;
       slc \<leftarrow> fld color sl t;
       both \<leftarrow> (if slc = BLACK then do {
           sr \<leftarrow> fld right s t;
           src \<leftarrow> fld color sr t;
           Some (src = BLACK)
         } else Some False);
       if both then do {
         t \<leftarrow> store s (\<lambda>n. n\<lparr>color := RED\<rparr>) t;
         xp \<leftarrow> fld parent x t;
         Some (xp, t)
       } else do {
         sr \<leftarrow> fld right s t;
         src \<leftarrow> fld color sr t;
         (s, t) \<leftarrow> (if src = BLACK then do {
             sl \<leftarrow> fld left s t;
             t \<leftarrow> store sl (\<lambda>n. n\<lparr>color := BLACK\<rparr>) t;
             t \<leftarrow> store s (\<lambda>n. n\<lparr>color := RED\<rparr>) t;
             t \<leftarrow> rightRotate s t;
             xp \<leftarrow> fld parent x t;
             s \<leftarrow> fld right xp t;
             Some (s, t)
           } else Some (s, t));
         xp \<leftarrow> fld parent x t;
         pc \<leftarrow> fld color xp t;
         t \<leftarrow> store s (\<lambda>n. n\<lparr>color := pc\<rparr>) t;
         xp \<leftarrow> fld parent x t;
         t \<leftarrow> store xp (\<lambda>n. n\<lparr>color := BLACK\<rparr>) t;
         sr \<leftarrow> fld right s t;
         t \<leftarrow> store sr (\<lambda>n. n\<lparr>color := BLACK\<rparr>) t;
         xp \<leftarrow> fld parent x t;
         t \<leftarrow> leftRotate xp t;
         Some (root t, t)
       }
     } else do {
       s \<leftarrow> fld left xp t;
       sc \<leftarrow> fld color s t;
       (s, t) \<leftarrow> (if sc = RED then do {
           t \<leftarrow> store s (\<lambda>n. n\<lparr>color := BLACK\<rparr>) t;
           xp \<leftarrow> fld parent x t;
           t \<leftarrow> store xp (\<lambda>n. n\<lparr>color := RED\<rparr>) t;
           xp \<leftarrow> fld parent x t;
           t \<leftarrow> rightRotate xp t;
           xp \<leftarrow> fld parent x t;
           s \<leftarrow> fld left xp t;
           Some (s, t)
         } else Some (s, t));
       sl \<leftarrow> fld left s t;
       slc \<leftarrow> fld color sl t;
       both \<leftarrow> (if slc = BLACK then do {
           sr \<leftarrow> fld right s t;
           src \<leftarrow> fld color sr t;
           Some (src = BLACK)
         } else Some False);
       if both then do {
         t \<leftarrow> store s (\<lambda>n. n\<lparr>color := RED\<rparr>) t;
         xp \<leftarrow> fld parent x t;
         Some (xp, t)
       } else do {
         sl \<leftarrow> fld left s t;
         slc \<leftarrow> fld color sl t;
         (s, t) \<leftarrow> (if slc = BLACK then do {
             sr \<leftarrow> fld right s t;
             t \<leftarrow> store sr (\<lambda>n. n\<lparr>color := BLACK\<rparr>) t;
             t \<leftarrow> store s (\<lambda>n. n\<lparr>color := RED\<rparr>) t;
             t \<leftarrow> leftRotate s t;
             xp \<leftarrow> fld parent x t;
             s \<leftarrow> fld left xp t;
             Some (s, t)
           } else Some (s, t));
         xp \<leftarrow> fld parent x t;
         pc \<leftarrow> fld color xp t;
         t \<leftarrow> store s (\<lambda>n. n\<lparr>color := pc\<rparr>) t;
         xp \<leftarrow> fld parent x t;
         t \<leftarrow> store xp (\<lambda>n. n\<lparr>color := BLACK\<rparr>) t;
         sl \<leftarrow> fld left s t;
         t \<leftarrow> store sl (\<lambda>n. n\<lparr>color := BLACK\<rparr>) t;
         xp \<leftarrow> fld parent x t;
         t \<leftarrow> rightRotate xp t;
         Some (root t, t)
       }
     }
   }"

text \<open>
  The loop \<open>while (x != _root && x->color == BLACK)\<close>: \<open>x->color\<close> is read only
  when \<open>x\<close> is not the root. It returns the last \<open>x\<close> with the tree.
\<close>

partial_function (option) fixDelete_loop :: "node_pointer \<Rightarrow> 'a RBTree \<Rightarrow> (node_pointer \<times> 'a RBTree) option" where
  "fixDelete_loop x t =
     (if x \<noteq> root t then do {
        xc \<leftarrow> fld color x t;
        if xc = BLACK then do {
          (x', t') \<leftarrow> fixDelete_body x t;
          fixDelete_loop x' t'
        } else Some (x, t)
      } else Some (x, t))"

definition fixDeleteViolations :: "node_pointer \<Rightarrow> 'a RBTree \<Rightarrow> 'a RBTree option" where
  "fixDeleteViolations x t = do {
     (x, t) \<leftarrow> fixDelete_loop x t;
     store x (\<lambda>n. n\<lparr>color := BLACK\<rparr>) t
   }"

text \<open>
  The first part of \<open>remove(node)\<close> for a node that is not null, up to the call of
  \<open>deleteNode\<close>: it unlinks the node and returns \<open>originalColor\<close>, \<open>newNode\<close> and
  the tree.
\<close>

definition remove_unlink :: "node_pointer \<Rightarrow> 'a RBTree \<Rightarrow> (e_color \<times> node_pointer \<times> 'a RBTree) option" where
  "remove_unlink node t = do {
     originalColor \<leftarrow> fld color node t;
     nl \<leftarrow> fld left node t;
     nr \<leftarrow> fld right node t;
     if nl = None \<and> nr = None then do {
       t \<leftarrow> replaceNode node None t;
       Some (originalColor, None, t)
     } else if nr = None then do {
       t \<leftarrow> replaceNode node nl t;
       Some (originalColor, nl, t)
     } else if nl = None then do {
       t \<leftarrow> replaceNode node nr t;
       Some (originalColor, nr, t)
     } else do {
       successor \<leftarrow> leftmost nr t;
       originalColor \<leftarrow> fld color successor t;
       newNode \<leftarrow> fld right successor t;
       sp \<leftarrow> fld parent successor t;
       t \<leftarrow> (if sp \<noteq> node then do {
           sr \<leftarrow> fld right successor t;
           t \<leftarrow> replaceNode successor sr t;
           nr \<leftarrow> fld right node t;
           t \<leftarrow> store successor (\<lambda>n. n\<lparr>right := nr\<rparr>) t;
           sr \<leftarrow> fld right successor t;
           nr \<leftarrow> fld right node t;
           store sr (\<lambda>n. n\<lparr>parent := nr\<rparr>) t
         } else Some t);
       t \<leftarrow> replaceNode node successor t;
       nl \<leftarrow> fld left node t;
       t \<leftarrow> store successor (\<lambda>n. n\<lparr>left := nl\<rparr>) t;
       sl \<leftarrow> fld left successor t;
       t \<leftarrow> store sl (\<lambda>n. n\<lparr>parent := successor\<rparr>) t;
       nc \<leftarrow> fld color node t;
       t \<leftarrow> store successor (\<lambda>n. n\<lparr>color := nc\<rparr>) t;
       Some (originalColor, newNode, t)
     }
   }"

text \<open>\<open>remove(node_pointer node)\<close>.\<close>

definition remove :: "node_pointer \<Rightarrow> 'a RBTree \<Rightarrow> 'a RBTree option" where
  "remove node t =
     (if node = None then Some t
      else do {
        (originalColor, newNode, t) \<leftarrow> remove_unlink node t;
        t \<leftarrow> deleteNode node t;
        if originalColor = BLACK then fixDeleteViolations newNode t else Some t
      })"

subsection \<open>Search\<close>

text \<open>
  The condition of the loop of \<open>search\<close> is, in the source,
  \<^verbatim>\<open>while (curr != nullptr && (!comp(val, *(curr->data) && !comp(*(curr->data), val)))\<close>
  which has one closing parenthesis too few. \<open>search\<close> closes the first call of
  \<open>comp\<close> after its second argument, the reading that the comment above the function
  describes: the loop goes on while neither \<open>comp(val, *curr->data)\<close> nor
  \<open>comp(*curr->data, val)\<close> holds. \<open>eq\<close> is \<open>operator==\<close> of the element type.
\<close>

partial_function (option) search_loop ::
    "('a \<Rightarrow> 'a \<Rightarrow> bool) \<Rightarrow> 'a \<Rightarrow> node_pointer \<Rightarrow> 'a RBTree \<Rightarrow> node_pointer option" where
  "search_loop cmp val cur t =
     (if cur \<noteq> None then do {
        cd \<leftarrow> fld data cur t;
        if \<not> cmp val cd \<and> \<not> cmp cd val then do {
          cn \<leftarrow> deref t cur;
          if cmp val cd then search_loop cmp val (left cn) t
          else search_loop cmp val (right cn) t
        } else Some cur
      } else Some cur)"

definition search ::
    "('a \<Rightarrow> 'a \<Rightarrow> bool) \<Rightarrow> ('a \<Rightarrow> 'a \<Rightarrow> bool) \<Rightarrow> 'a \<Rightarrow> 'a RBTree \<Rightarrow> node_pointer option" where
  "search cmp eq val t =
     (if root t = None then Some (root t)
      else do {
        rd \<leftarrow> fld data (root t) t;
        if eq rd val then Some (root t) else search_loop cmp val (root t) t
      })"

text \<open>
  The other place for the missing parenthesis is the end of the condition: then the second
  argument of the outer \<open>comp\<close> is the truth value of
  \<open>*(curr->data) && !comp(*(curr->data), val)\<close>, converted to the element type. For
  \<open>int\<close> elements with \<open>std::less\<close> that is \<open>search_int_alt\<close>.
\<close>

partial_function (option) search_loop_int_alt :: "int \<Rightarrow> node_pointer \<Rightarrow> int RBTree \<Rightarrow> node_pointer option" where
  "search_loop_int_alt val cur t =
     (if cur \<noteq> None then do {
        cd \<leftarrow> fld data cur t;
        if \<not> val < (if cd \<noteq> 0 \<and> \<not> cd < val then 1 else 0) then do {
          cn \<leftarrow> deref t cur;
          if val < cd then search_loop_int_alt val (left cn) t
          else search_loop_int_alt val (right cn) t
        } else Some cur
      } else Some cur)"

definition search_int_alt :: "int \<Rightarrow> int RBTree \<Rightarrow> node_pointer option" where
  "search_int_alt val t =
     (if root t = None then Some (root t)
      else do {
        rd \<leftarrow> fld data (root t) t;
        if rd = val then Some (root t) else search_loop_int_alt val (root t) t
      })"

text \<open>\<open>remove(const T& val)\<close>.\<close>

definition remove_val ::
    "('a \<Rightarrow> 'a \<Rightarrow> bool) \<Rightarrow> ('a \<Rightarrow> 'a \<Rightarrow> bool) \<Rightarrow> 'a \<Rightarrow> 'a RBTree \<Rightarrow> 'a RBTree option" where
  "remove_val cmp eq val t = do {
     node \<leftarrow> search cmp eq val t;
     if node \<noteq> None then remove node t else Some t
   }"

subsection \<open>Size and traversal\<close>

text \<open>\<open>size(node_pointer node)\<close>, the recursion behind \<open>size()\<close>.\<close>

partial_function (option) size_node :: "node_pointer \<Rightarrow> 'a RBTree \<Rightarrow> nat option" where
  "size_node node t =
     (if node = None then Some 0
      else do {
        n \<leftarrow> deref t node;
        a \<leftarrow> size_node (left n) t;
        b \<leftarrow> size_node (right n) t;
        Some (a + b + 1)
      })"

definition size_tree :: "'a RBTree \<Rightarrow> nat option" where
  "size_tree t = size_node (root t) t"

definition first :: "'a RBTree \<Rightarrow> node_pointer option" where
  "first t = (if root t = None then Some None else leftmost (root t) t)"

partial_function (option) rightmost :: "node_pointer \<Rightarrow> 'a RBTree \<Rightarrow> node_pointer option" where
  "rightmost p t = do {
     r \<leftarrow> fld right p t;
     if r \<noteq> None then rightmost r t else Some p
   }"

definition last_tree :: "'a RBTree \<Rightarrow> node_pointer option" where
  "last_tree t = (if root t = None then Some None else rightmost (root t) t)"

text \<open>
  The loop \<open>while (node->parent != nullptr && node == node->parent->right)
  node = node->parent\<close> of \<open>next_inorder\<close>.
\<close>

partial_function (option) climb :: "node_pointer \<Rightarrow> 'a RBTree \<Rightarrow> node_pointer option" where
  "climb node t = do {
     np \<leftarrow> fld parent node t;
     if np \<noteq> None then do {
       pr \<leftarrow> fld right np t;
       if node = pr then climb np t else Some node
     } else Some node
   }"

definition next_inorder :: "node_pointer \<Rightarrow> 'a RBTree \<Rightarrow> node_pointer option" where
  "next_inorder node t =
     (if node = None then Some None
      else do {
        nr \<leftarrow> fld right node t;
        if nr \<noteq> None then leftmost nr t
        else do {
          node \<leftarrow> climb node t;
          fld parent node t
        }
      })"

declare fixInsertion_loop.simps [code]
declare insert_descend.simps [code]
declare leftmost.simps [code]
declare rightmost.simps [code]
declare fixDelete_loop.simps [code]
declare search_loop.simps [code]
declare search_loop_int_alt.simps [code]
declare size_node.simps [code]
declare climb.simps [code]


subsection \<open>Observations\<close>

text \<open>
  The iteration of a caller: from \<open>first()\<close>, \<open>next_inorder\<close> until it returns null,
  collecting the values of the nodes it visits.
\<close>

partial_function (option) walk :: "node_pointer \<Rightarrow> 'a RBTree \<Rightarrow> 'a list option" where
  "walk p t =
     (if p = None then Some []
      else do {
        d \<leftarrow> fld data p t;
        q \<leftarrow> next_inorder p t;
        ds \<leftarrow> walk q t;
        Some (d # ds)
      })"

declare walk.simps [code]

definition inorder_traversal :: "'a RBTree \<Rightarrow> 'a list option" where
  "inorder_traversal t = do { p \<leftarrow> first t; walk p t }"

text \<open>Inserting the values of a list, first to last.\<close>

fun insert_all :: "('a \<Rightarrow> 'a \<Rightarrow> bool) \<Rightarrow> 'a list \<Rightarrow> 'a RBTree \<Rightarrow> 'a RBTree option" where
  "insert_all cmp [] t = Some t"
| "insert_all cmp (v # vs) t = insert cmp v t \<bind> insert_all cmp vs"

text \<open>A sequence of public operations.\<close>

datatype 'a operation = Insert 'a | Remove 'a | RemoveNode node_pointer

fun run :: "('a \<Rightarrow> 'a \<Rightarrow> bool) \<Rightarrow> ('a \<Rightarrow> 'a \<Rightarrow> bool) \<Rightarrow> 'a operation list \<Rightarrow> 'a RBTree \<Rightarrow> 'a RBTree option" where
  "run cmp eq [] t = Some t"
| "run cmp eq (Insert v # ops) t = insert cmp v t \<bind> run cmp eq ops"
| "run cmp eq (Remove v # ops) t = remove_val cmp eq v t \<bind> run cmp eq ops"
| "run cmp eq (RemoveNode p # ops) t = remove p t \<bind> run cmp eq ops"

text \<open>The root pointer and the store, address by address.\<close>

definition snapshot :: "'a RBTree \<Rightarrow> node_pointer \<times> 'a RBNode option list" where
  "snapshot t = (root t, map (mem t) [0..<brk t])"

text \<open>
  The number of black nodes on the path that starts at a node and follows the given
  child links, when that path ends at a null link with its last step.
\<close>

datatype dir = L | R

fun blacks_along :: "dir list \<Rightarrow> node_pointer \<Rightarrow> 'a RBTree \<Rightarrow> nat option" where
  "blacks_along ds None t = (if ds = [] then Some 0 else None)"
| "blacks_along [] (Some a) t = None"
| "blacks_along (d # ds) (Some a) t = do {
     n \<leftarrow> mem t a;
     r \<leftarrow> blacks_along ds (case d of L \<Rightarrow> left n | R \<Rightarrow> right n) t;
     Some (r + (if color n = BLACK then 1 else 0))
   }"

definition blacks_from_root :: "dir list \<Rightarrow> 'a RBTree \<Rightarrow> nat option" where
  "blacks_from_root ds t = blacks_along ds (root t) t"

text \<open>The colour of the left child of the root.\<close>

definition color_left_of_root :: "'a RBTree \<Rightarrow> e_color option" where
  "color_left_of_root t = do { l \<leftarrow> fld left (root t) t; fld color l t }"

text \<open>The value of the node that \<open>search\<close> returns, if it returns one.\<close>

definition search_data ::
    "('a \<Rightarrow> 'a \<Rightarrow> bool) \<Rightarrow> ('a \<Rightarrow> 'a \<Rightarrow> bool) \<Rightarrow> 'a \<Rightarrow> 'a RBTree \<Rightarrow> 'a option option" where
  "search_data cmp eq val t = do {
     p \<leftarrow> search cmp eq val t;
     if p = None then Some None else map_option Some (fld data p t)
   }"

definition search_data_int_alt :: "int \<Rightarrow> int RBTree \<Rightarrow> int option option" where
  "search_data_int_alt val t = do {
     p \<leftarrow> search_int_alt val t;
     if p = None then Some None else map_option Some (fld data p t)
   }"

text \<open>\<open>originalColor\<close> and \<open>newNode\<close> as \<open>remove\<close> has them before \<open>deleteNode\<close>.\<close>

definition recorded :: "node_pointer \<Rightarrow> 'a RBTree \<Rightarrow> (e_color \<times> node_pointer) option" where
  "recorded node t = map_option (\<lambda>(c, n, _). (c, n)) (remove_unlink node t)"

text \<open>
  What a call hands back to its caller: nothing (\<open>void\<close>) or a boolean. The source
  declares \<open>void insert(const T& val)\<close>, so a call of \<open>insert\<close> that returns hands
  back \<open>Void\<close>.
\<close>

datatype retval = Void | Bool bool

definition insert_returns :: "('a \<Rightarrow> 'a \<Rightarrow> bool) \<Rightarrow> 'a \<Rightarrow> 'a RBTree \<Rightarrow> retval option" where
  "insert_returns cmp val t = map_option (\<lambda>_. Void) (insert cmp val t)"

text \<open>The trees of the scenarios below, over \<open>int\<close> with \<open>std::less\<close> and \<open>==\<close>.\<close>

definition tree_10_20_30 :: "int RBTree option" where
  "tree_10_20_30 = insert_all (<) [10, 20, 30] empty_tree"

definition tree_10_30 :: "int RBTree option" where
  "tree_10_30 = tree_10_20_30 \<bind> remove_val (<) (=) 20"

definition tree_20_10_40_30 :: "int RBTree option" where
  "tree_20_10_40_30 = insert_all (<) [20, 10, 40, 30] empty_tree"

definition tree_10_30_40 :: "int RBTree option" where
  "tree_10_30_40 = tree_20_10_40_30 \<bind> remove_val (<) (=) 20"

definition tree_10 :: "int RBTree option" where
  "tree_10 = insert (<) 10 empty_tree"

definition tree_10_10 :: "int RBTree option" where
  "tree_10_10 = insert_all (<) [10, 10] empty_tree"

definition tree_cyclic :: "int RBTree option" where
  "tree_cyclic = run (<) (=)
     [Insert 20, Insert 10, Insert 40, Insert 30, Remove 20, Insert 50, Insert 60] empty_tree"

subsection \<open>The shape of a linked tree\<close>

text \<open>
  A shape is a binary tree of addresses. \<open>is_tree h par p s\<close> says that in the store
  \<open>h\<close> the pointer \<open>p\<close> is the root of a linked tree of the shape \<open>s\<close> whose root,
  if there is one, has the parent link \<open>par\<close>: every node of the shape is allocated, its
  child links point at the roots of the two subshapes and the parent links of its children
  point back at it. \<open>well_formed t s\<close> says that the tree \<open>t\<close> is linked as the shape
  \<open>s\<close> from its root, whose parent link is null, and that no address occurs twice.
  \<open>inorder\<close> lists the addresses of a shape from left to right, and \<open>inorder_values\<close>
  the values stored at them. \<open>links\<close> are the three pointers of a node.
\<close>

datatype shape = Tip | Nd shape nat shape

fun inorder :: "shape \<Rightarrow> nat list" where
  "inorder Tip = []"
| "inorder (Nd l a r) = inorder l @ a # inorder r"

fun is_tree :: "(nat \<Rightarrow> 'a RBNode option) \<Rightarrow> node_pointer \<Rightarrow> node_pointer \<Rightarrow> shape \<Rightarrow> bool" where
  "is_tree h par p Tip = (p = None)"
| "is_tree h par p (Nd l a r) =
     (p = Some a \<and>
      (case h a of
         None \<Rightarrow> False
       | Some n \<Rightarrow> parent n = par \<and> is_tree h (Some a) (left n) l \<and> is_tree h (Some a) (right n) r))"

definition well_formed :: "'a RBTree \<Rightarrow> shape \<Rightarrow> bool" where
  "well_formed t s = (is_tree (mem t) None (root t) s \<and> distinct (inorder s))"

text \<open>
  \<open>sub_at x s\<close> is the subshape whose root is the address \<open>x\<close>, and
  \<open>subst_at x u s\<close> puts the shape \<open>u\<close> in its place. The two rotations of a shape:
  \<open>rotl\<close> lifts the right child of the root, \<open>rotr\<close> the left child.
\<close>

fun sub_at :: "nat \<Rightarrow> shape \<Rightarrow> shape" where
  "sub_at x Tip = Tip"
| "sub_at x (Nd l a r) =
     (if a = x then Nd l a r else if x \<in> set (inorder l) then sub_at x l else sub_at x r)"

fun subst_at :: "nat \<Rightarrow> shape \<Rightarrow> shape \<Rightarrow> shape" where
  "subst_at x u Tip = Tip"
| "subst_at x u (Nd l a r) =
     (if a = x then u else if x \<in> set (inorder l) then Nd (subst_at x u l) a r else Nd l a (subst_at x u r))"

definition links :: "'a RBNode \<Rightarrow> node_pointer \<times> node_pointer \<times> node_pointer" where
  "links n = (parent n, left n, right n)"

fun rotl :: "shape \<Rightarrow> shape" where
  "rotl (Nd l x (Nd rl y rr)) = Nd (Nd l x rl) y rr"
| "rotl s = s"

fun rotr :: "shape \<Rightarrow> shape" where
  "rotr (Nd (Nd ll y lr) x r) = Nd ll y (Nd lr x r)"
| "rotr s = s"

definition rotate_left_at :: "nat \<Rightarrow> shape \<Rightarrow> shape" where
  "rotate_left_at x s = subst_at x (rotl (sub_at x s)) s"

definition rotate_right_at :: "nat \<Rightarrow> shape \<Rightarrow> shape" where
  "rotate_right_at x s = subst_at x (rotr (sub_at x s)) s"

definition inorder_values :: "'a RBTree \<Rightarrow> shape \<Rightarrow> 'a list" where
  "inorder_values t s = List.map_filter (\<lambda>a. map_option data (mem t a)) (inorder s)"

text \<open>A tree of three nodes, as the insertion of 10, 20, 30 leaves it.\<close>

definition example_tree :: "int RBTree" where
  "example_tree = \<lparr>root = Some 1,
     mem = [0 \<mapsto> \<lparr>parent = Some 1, right = None, left = None, data = 10, color = RED\<rparr>,
            1 \<mapsto> \<lparr>parent = None, right = Some 2, left = Some 0, data = 20, color = BLACK\<rparr>,
            2 \<mapsto> \<lparr>parent = Some 1, right = None, left = None, data = 30, color = RED\<rparr>],
     brk = 3\<rparr>"

definition example_shape :: shape where
  "example_shape = Nd (Nd Tip 0 Tip) 1 (Nd Tip 2 Tip)"

subsection \<open>Colours of a shape\<close>

text \<open>
  \<open>col h\<close> is the colour of the node at an address of the store, black where nothing is
  allocated. \<open>rootcol\<close> is the colour of the root of a shape, a null child counting as
  black. \<open>bheight\<close> counts the black nodes down the left spine, and \<open>balanced\<close> says
  that at every node the two subtrees have the same count, so that the count does not depend on
  the path taken. \<open>no_red_red k c s\<close>: no red node of \<open>s\<close> has a red child, the
  child \<open>k\<close> excepted; with \<open>k\<close> null there is no exception.
\<close>

definition col :: "(nat \<Rightarrow> 'a RBNode option) \<Rightarrow> nat \<Rightarrow> e_color" where
  "col h a = (case h a of None \<Rightarrow> BLACK | Some n \<Rightarrow> color n)"

fun rootcol :: "(nat \<Rightarrow> e_color) \<Rightarrow> shape \<Rightarrow> e_color" where
  "rootcol c Tip = BLACK"
| "rootcol c (Nd l a r) = c a"

fun bheight :: "(nat \<Rightarrow> e_color) \<Rightarrow> shape \<Rightarrow> nat" where
  "bheight c Tip = 0"
| "bheight c (Nd l a r) = bheight c l + (if c a = BLACK then 1 else 0)"

fun balanced :: "(nat \<Rightarrow> e_color) \<Rightarrow> shape \<Rightarrow> bool" where
  "balanced c Tip = True"
| "balanced c (Nd l a r) = (balanced c l \<and> balanced c r \<and> bheight c l = bheight c r)"

fun is_root :: "node_pointer \<Rightarrow> shape \<Rightarrow> bool" where
  "is_root k Tip = False"
| "is_root k (Nd l a r) = (k = Some a)"

fun no_red_red :: "node_pointer \<Rightarrow> (nat \<Rightarrow> e_color) \<Rightarrow> shape \<Rightarrow> bool" where
  "no_red_red k c Tip = True"
| "no_red_red k c (Nd l a r) =
     ((c a = RED \<longrightarrow> (rootcol c l = BLACK \<or> is_root k l) \<and> (rootcol c r = BLACK \<or> is_root k r)) \<and>
      no_red_red k c l \<and> no_red_red k c r)"

subsection \<open>Linked trees and insertion\<close>

text \<open>
  \<open>root_black\<close>: the root, if there is one, is black. \<open>rb_linked t s\<close>: the tree is
  well formed with the shape \<open>s\<close>, its root is black and \<open>new\<close> has handed out every
  address of the shape. \<open>descend_shape\<close> is the node at which the descent of \<open>insert\<close>
  ends in a shape, and \<open>bst_insert\<close> the shape with the new address \<open>n\<close> linked below it.
  \<open>insfix_post\<close> is what one round of the insertion fix-up leaves: the same in-order
  sequence and values, and either the same shape with \<open>k\<close> two levels up, or a black
  parent of \<open>k\<close> under a black root. \<open>strict_weak_order\<close> is the requirement of C++ on
  \<open>Compare\<close>: irreflexive, transitive, with a transitive incomparability.
\<close>

definition root_black :: "'a RBTree \<Rightarrow> bool" where
  "root_black t = (case root t of None \<Rightarrow> True | Some r \<Rightarrow> map_option color (mem t r) = Some BLACK)"

text \<open>
  \<open>insfix_step\<close> describes one round of the insertion fix-up by what it does to the shape
  and to the colours: under a red uncle the shape stays and parent, uncle and grandparent are
  recoloured; under a black or null uncle the grandparent is rotated, after a rotation of the
  parent when the node is an inner grandchild, and the new top of the three is black over a red
  grandparent.
\<close>

definition insfix_step :: "'a RBTree \<Rightarrow> shape \<Rightarrow> nat \<Rightarrow> nat \<Rightarrow> 'a RBTree \<Rightarrow> shape \<Rightarrow> bool" where
  "insfix_step t s k j t' s' =
     (\<exists>kn p pn g gn. mem t k = Some kn \<and> parent kn = Some p \<and> mem t p = Some pn \<and>
        parent pn = Some g \<and> mem t g = Some gn \<and>
        ((\<exists>u. (left gn = Some u \<and> right gn = Some p \<or> right gn = Some u \<and> left gn = Some p) \<and>
            col (mem t) u = RED \<and> j = g \<and> s' = s \<and>
            col (mem t') = (col (mem t))(u := BLACK, p := BLACK, g := RED))
         \<or> (right gn = Some p \<and> (\<forall>u. left gn = Some u \<longrightarrow> col (mem t) u = BLACK) \<and>
             right pn = Some k \<and> j = k \<and> s' = rotate_left_at g s \<and>
             col (mem t') = (col (mem t))(p := BLACK, g := RED))
         \<or> (right gn = Some p \<and> (\<forall>u. left gn = Some u \<longrightarrow> col (mem t) u = BLACK) \<and>
             left pn = Some k \<and> j = p \<and> s' = rotate_left_at g (rotate_right_at p s) \<and>
             col (mem t') = (col (mem t))(k := BLACK, g := RED))
         \<or> (left gn = Some p \<and> (\<forall>u. right gn = Some u \<longrightarrow> col (mem t) u = BLACK) \<and>
             left pn = Some k \<and> j = k \<and> s' = rotate_right_at g s \<and>
             col (mem t') = (col (mem t))(p := BLACK, g := RED))
         \<or> (left gn = Some p \<and> (\<forall>u. right gn = Some u \<longrightarrow> col (mem t) u = BLACK) \<and>
             right pn = Some k \<and> j = p \<and> s' = rotate_right_at g (rotate_left_at p s) \<and>
             col (mem t') = (col (mem t))(k := BLACK, g := RED))))"

definition insfix_post :: "'a RBTree \<Rightarrow> shape \<Rightarrow> nat \<Rightarrow> node_pointer \<Rightarrow> 'a RBTree \<Rightarrow> bool" where
  "insfix_post t s k k' t' =
     (\<exists>s' j. k' = Some j \<and> well_formed t' s' \<and> inorder s' = inorder s \<and> brk t' = brk t \<and>
        (\<forall>a. map_option data (mem t' a) = map_option data (mem t a)) \<and> j \<in> set (inorder s') \<and>
        insfix_step t s k j t' s' \<and>
        ((s' = s \<and> root t' = root t \<and>
          length (inorder (sub_at k s)) < length (inorder (sub_at j s)) \<and>
          (root t' \<noteq> Some j \<longrightarrow> root_black t'))
         \<or> (root_black t' \<and>
             (\<exists>jn q qn. mem t' j = Some jn \<and> parent jn = Some q \<and> mem t' q = Some qn \<and> color qn = BLACK))))"

fun bst_insert :: "(nat \<Rightarrow> 'a RBNode option) \<Rightarrow> ('a \<Rightarrow> 'a \<Rightarrow> bool) \<Rightarrow> 'a \<Rightarrow> nat \<Rightarrow> shape \<Rightarrow> shape" where
  "bst_insert h cmp v n Tip = Nd Tip n Tip"
| "bst_insert h cmp v n (Nd l a r) =
     (case h a of
        None \<Rightarrow> Nd l a r
      | Some an \<Rightarrow> if cmp v (data an) then Nd (bst_insert h cmp v n l) a r
                   else Nd l a (bst_insert h cmp v n r))"

fun descend_shape :: "(nat \<Rightarrow> 'a RBNode option) \<Rightarrow> ('a \<Rightarrow> 'a \<Rightarrow> bool) \<Rightarrow> 'a \<Rightarrow> node_pointer \<Rightarrow> shape \<Rightarrow> node_pointer" where
  "descend_shape h cmp v q Tip = q"
| "descend_shape h cmp v q (Nd l a r) =
     (case h a of
        None \<Rightarrow> None
      | Some an \<Rightarrow> if cmp v (data an) then descend_shape h cmp v (Some a) l
                   else descend_shape h cmp v (Some a) r)"

definition rb_linked :: "'a RBTree \<Rightarrow> shape \<Rightarrow> bool" where
  "rb_linked t s = (well_formed t s \<and> root_black t \<and> (\<forall>a \<in> set (inorder s). a < brk t))"

definition strict_weak_order :: "('a \<Rightarrow> 'a \<Rightarrow> bool) \<Rightarrow> bool" where
  "strict_weak_order cmp =
     ((\<forall>a. \<not> cmp a a) \<and>
      (\<forall>a b c. cmp a b \<and> cmp b c \<longrightarrow> cmp a c) \<and>
      (\<forall>a b c. \<not> cmp a b \<and> \<not> cmp b a \<and> \<not> cmp b c \<and> \<not> cmp c b \<longrightarrow> \<not> cmp a c \<and> \<not> cmp c a))"

text \<open>
  \<open>path_blacks\<close> lists, for every path from the root of a shape down to a null link, the
  number of black nodes on it. \<open>red_black t s\<close>: the tree is linked as \<open>s\<close> under a
  black root, no red node has a red child, and the black counts agree.
\<close>

fun path_blacks :: "(nat \<Rightarrow> e_color) \<Rightarrow> shape \<Rightarrow> nat list" where
  "path_blacks c Tip = [0]"
| "path_blacks c (Nd l a r) =
     map (\<lambda>n. n + (if c a = BLACK then 1 else 0)) (path_blacks c l @ path_blacks c r)"

definition red_black :: "'a RBTree \<Rightarrow> shape \<Rightarrow> bool" where
  "red_black t s = (rb_linked t s \<and> balanced (col (mem t)) s \<and> no_red_red None (col (mem t)) s)"

section \<open>Theorems\<close>

subsection \<open>Pointers and shapes\<close>

lemma deref_simps [simp]:
  "deref t None = None" "deref t (Some a) = mem t a"
  by (simp_all add: deref_def)

lemma fld_simps [simp]:
  "fld f None t = None" "fld f (Some a) t = map_option f (mem t a)"
  by (simp_all add: fld_def)

lemma store_None [simp]: "store None g t = None"
  by (simp add: store_def)

lemma store_Some: "mem t a = Some n \<Longrightarrow> store (Some a) g t = Some (t\<lparr>mem := (mem t)(a \<mapsto> g n)\<rparr>)"
  by (simp add: store_def)

lemma leftRotate_result:
  assumes x: "mem t x = Some xn" and xr: "right xn = Some y"
    and y: "mem t y = Some yn" and xy: "x \<noteq> y"
    and b: "left yn = None \<or> (\<exists>b bn. left yn = Some b \<and> mem t b = Some bn \<and> b \<noteq> x \<and> b \<noteq> y)"
    and p: "parent xn = None \<or>
            (\<exists>p pn. parent xn = Some p \<and> mem t p = Some pn \<and> p \<noteq> x \<and> p \<noteq> y \<and> Some p \<noteq> left yn)"
  shows "\<exists>t'. leftRotate (Some x) t = Some t'
     \<and> brk t' = brk t
     \<and> root t' = (if parent xn = None then Some y else root t)
     \<and> mem t' x = Some (xn\<lparr>right := left yn, parent := Some y\<rparr>)
     \<and> mem t' y = Some (yn\<lparr>left := Some x, parent := parent xn\<rparr>)
     \<and> (\<forall>b bn. left yn = Some b \<and> mem t b = Some bn \<longrightarrow> mem t' b = Some (bn\<lparr>parent := Some x\<rparr>))
     \<and> (\<forall>p pn. parent xn = Some p \<and> mem t p = Some pn \<longrightarrow>
           mem t' p = Some (if left pn = Some x then pn\<lparr>left := Some y\<rparr> else pn\<lparr>right := Some y\<rparr>))
     \<and> (\<forall>a. a \<noteq> x \<and> a \<noteq> y \<and> Some a \<noteq> left yn \<and> Some a \<noteq> parent xn \<longrightarrow> mem t' a = mem t a)"
proof (cases "parent xn")
  case None
  with x xr y xy b show ?thesis
    unfolding leftRotate_def by (auto simp: store_Some)
next
  case (Some p')
  with p obtain pn where pn: "mem t p' = Some pn" "p' \<noteq> x" "p' \<noteq> y" "Some p' \<noteq> left yn"
    by auto
  show ?thesis
  proof (cases "left pn = Some x")
    case True
    with Some pn x xr y xy b show ?thesis
      unfolding leftRotate_def by (auto simp: store_Some)
  next
    case False
    then have "Some x \<noteq> left pn" by auto
    with False Some pn x xr y xy b show ?thesis
      unfolding leftRotate_def by (auto simp: store_Some)
  qed
qed

lemma is_tree_Nd:
  "is_tree h par p (Nd l a r) \<longleftrightarrow>
     p = Some a \<and> (\<exists>n. h a = Some n \<and> parent n = par \<and> is_tree h (Some a) (left n) l \<and> is_tree h (Some a) (right n) r)"
  by (auto split: option.splits)

declare is_tree.simps(2) [simp del]

declare is_tree_Nd [simp]

lemma is_tree_None [simp]: "is_tree h par None s \<longleftrightarrow> s = Tip"
  by (cases s) auto

lemma is_tree_cong:
  "(\<And>a. a \<in> set (inorder s) \<Longrightarrow> map_option links (h' a) = map_option links (h a)) \<Longrightarrow>
   is_tree h' par p s = is_tree h par p s"
proof (induction s arbitrary: par p)
  case Tip
  then show ?case by simp
next
  case (Nd l a r)
  have a: "map_option links (h' a) = map_option links (h a)"
    using Nd.prems by simp
  have l: "\<And>par p. is_tree h' par p l = is_tree h par p l"
    using Nd.IH(1) Nd.prems by simp
  have r: "\<And>par p. is_tree h' par p r = is_tree h par p r"
    using Nd.IH(2) Nd.prems by simp
  show ?case
    using a by (cases "h a"; cases "h' a") (auto simp: l r links_def)
qed

lemma is_tree_frame:
  "is_tree h par p s \<Longrightarrow> (\<And>a. a \<in> set (inorder s) \<Longrightarrow> h' a = h a) \<Longrightarrow> is_tree h' par p s"
  using is_tree_cong [of s h' h par p] by simp

lemma is_tree_unique: "is_tree h par p s \<Longrightarrow> is_tree h par' p s' \<Longrightarrow> s = s'"
proof (induction s arbitrary: par par' p s')
  case Tip
  then show ?case by simp
next
  case (Nd l a r)
  then obtain l' r' where s': "s' = Nd l' a r'"
    by (cases s') auto
  with Nd show ?case
    by (auto simp: is_tree_Nd)
qed

text \<open>The root of a subtree keeps everything but its parent link.\<close>

lemma is_tree_reparent:
  assumes "is_tree h par (Some a) (Nd l a r)" and "a \<notin> set (inorder l)" and "a \<notin> set (inorder r)"
    and "h a = Some n" and "h' a = Some (n\<lparr>parent := par'\<rparr>)"
    and "\<And>b. b \<in> set (inorder l) \<union> set (inorder r) \<Longrightarrow> h' b = h b"
  shows "is_tree h' par' (Some a) (Nd l a r)"
  using assms by (auto simp: is_tree_Nd intro: is_tree_frame)

lemma is_tree_mem:
  "is_tree h par p s \<Longrightarrow> x \<in> set (inorder s) \<Longrightarrow> \<exists>n. h x = Some n"
  by (induction s arbitrary: par p) (auto simp: is_tree_Nd)

lemma is_tree_sub_at:
  "is_tree h par p s \<Longrightarrow> x \<in> set (inorder s) \<Longrightarrow> h x = Some xn \<Longrightarrow>
   is_tree h (parent xn) (Some x) (sub_at x s)"
  by (induction s arbitrary: par p) (auto simp: is_tree_Nd)

lemma sub_at_subset: "set (inorder (sub_at x s)) \<subseteq> set (inorder s)"
  by (induction s) auto

lemma sub_at_root: "x \<in> set (inorder s) \<Longrightarrow> \<exists>l r. sub_at x s = Nd l x r"
  by (induction s) auto

lemma sub_at_distinct: "distinct (inorder s) \<Longrightarrow> distinct (inorder (sub_at x s))"
  by (induction s) auto

text \<open>A node below the root of a subtree has its parent in the subtree, and is a child of it.\<close>

lemma is_tree_parent:
  "is_tree h par p s \<Longrightarrow> x \<in> set (inorder s) \<Longrightarrow> p \<noteq> Some x \<Longrightarrow> h x = Some xn \<Longrightarrow>
   \<exists>q qn. parent xn = Some q \<and> q \<in> set (inorder s) \<and> h q = Some qn \<and>
     (left qn = Some x \<or> right qn = Some x)"
proof (induction s arbitrary: par p)
  case Tip
  then show ?case by simp
next
  case (Nd l a r)
  from Nd.prems obtain n where n: "h a = Some n" "p = Some a"
    "is_tree h (Some a) (left n) l" "is_tree h (Some a) (right n) r"
    by (auto simp: is_tree_Nd)
  from Nd.prems n have xa: "x \<noteq> a" by auto
  with Nd.prems have "x \<in> set (inorder l) \<or> x \<in> set (inorder r)" by auto
  then show ?case
  proof
    assume xl: "x \<in> set (inorder l)"
    show ?thesis
    proof (cases "left n = Some x")
      case True
      with n(3) have "is_tree h (Some a) (Some x) l" by simp
      with xl Nd.prems(4) have "parent xn = Some a"
        by (cases l) (auto simp: is_tree_Nd)
      with True n show ?thesis by auto
    next
      case False
      from Nd.IH(1) [OF n(3) xl False Nd.prems(4)] show ?thesis by auto
    qed
  next
    assume xr: "x \<in> set (inorder r)"
    show ?thesis
    proof (cases "right n = Some x")
      case True
      with n(4) have "is_tree h (Some a) (Some x) r" by simp
      with xr Nd.prems(4) have "parent xn = Some a"
        by (cases r) (auto simp: is_tree_Nd)
      with True n show ?thesis by auto
    next
      case False
      from Nd.IH(2) [OF n(4) xr False Nd.prems(4)] show ?thesis by auto
    qed
  qed
qed

lemma is_tree_root_in: "is_tree h par (Some x) s \<Longrightarrow> x \<in> set (inorder s)"
  by (cases s) auto

lemma is_tree_child_in:
  "is_tree h par p s \<Longrightarrow> x \<in> set (inorder s) \<Longrightarrow> h x = Some xn \<Longrightarrow>
   (\<forall>c. left xn = Some c \<longrightarrow> c \<in> set (inorder s)) \<and> (\<forall>c. right xn = Some c \<longrightarrow> c \<in> set (inorder s))"
proof -
  assume a: "is_tree h par p s" "x \<in> set (inorder s)" "h x = Some xn"
  from sub_at_root [OF a(2)] obtain l r where s: "sub_at x s = Nd l x r" by auto
  from is_tree_sub_at [OF a] s have "is_tree h (Some x) (left xn) l" "is_tree h (Some x) (right xn) r"
    using a(3) by (auto simp: is_tree_Nd)
  then have "\<forall>c. left xn = Some c \<longrightarrow> c \<in> set (inorder l)" "\<forall>c. right xn = Some c \<longrightarrow> c \<in> set (inorder r)"
    by (auto dest: is_tree_root_in)
  with sub_at_subset [of x s] s show ?thesis by auto
qed

lemma rightRotate_result:
  assumes x: "mem t x = Some xn" and xr: "left xn = Some y"
    and y: "mem t y = Some yn" and xy: "x \<noteq> y"
    and b: "right yn = None \<or> (\<exists>b bn. right yn = Some b \<and> mem t b = Some bn \<and> b \<noteq> x \<and> b \<noteq> y)"
    and p: "parent xn = None \<or>
            (\<exists>p pn. parent xn = Some p \<and> mem t p = Some pn \<and> p \<noteq> x \<and> p \<noteq> y \<and> Some p \<noteq> right yn)"
  shows "\<exists>t'. rightRotate (Some x) t = Some t'
     \<and> brk t' = brk t
     \<and> root t' = (if parent xn = None then Some y else root t)
     \<and> mem t' x = Some (xn\<lparr>left := right yn, parent := Some y\<rparr>)
     \<and> mem t' y = Some (yn\<lparr>right := Some x, parent := parent xn\<rparr>)
     \<and> (\<forall>b bn. right yn = Some b \<and> mem t b = Some bn \<longrightarrow> mem t' b = Some (bn\<lparr>parent := Some x\<rparr>))
     \<and> (\<forall>p pn. parent xn = Some p \<and> mem t p = Some pn \<longrightarrow>
           mem t' p = Some (if right pn = Some x then pn\<lparr>right := Some y\<rparr> else pn\<lparr>left := Some y\<rparr>))
     \<and> (\<forall>a. a \<noteq> x \<and> a \<noteq> y \<and> Some a \<noteq> right yn \<and> Some a \<noteq> parent xn \<longrightarrow> mem t' a = mem t a)"
proof (cases "parent xn")
  case None
  with x xr y xy b show ?thesis
    unfolding rightRotate_def by (auto simp: store_Some)
next
  case (Some p')
  with p obtain pn where pn: "mem t p' = Some pn" "p' \<noteq> x" "p' \<noteq> y" "Some p' \<noteq> right yn"
    by auto
  show ?thesis
  proof (cases "right pn = Some x")
    case True
    with Some pn x xr y xy b show ?thesis
      unfolding rightRotate_def by (auto simp: store_Some)
  next
    case False
    then have "Some x \<noteq> right pn" by auto
    with False Some pn x xr y xy b show ?thesis
      unfolding rightRotate_def by (auto simp: store_Some)
  qed
qed

lemma inorder_subst_at:
  "inorder u = inorder (sub_at x s) \<Longrightarrow> x \<in> set (inorder s) \<Longrightarrow> inorder (subst_at x u s) = inorder s"
  by (induction s) auto

lemma is_tree_parent_outside:
  "is_tree h par p s \<Longrightarrow> distinct (inorder s) \<Longrightarrow> x \<in> set (inorder s) \<Longrightarrow> p \<noteq> Some x \<Longrightarrow>
   h x = Some xn \<Longrightarrow> parent xn = Some q \<Longrightarrow> q \<in> set (inorder s) \<and> q \<notin> set (inorder (sub_at x s))"
proof (induction s arbitrary: par p)
  case Tip
  then show ?case by simp
next
  case (Nd l a r)
  from Nd.prems obtain n where n: "h a = Some n" "p = Some a"
    "is_tree h (Some a) (left n) l" "is_tree h (Some a) (right n) r"
    by auto
  from Nd.prems n have xa: "x \<noteq> a" by auto
  with Nd.prems have "x \<in> set (inorder l) \<or> x \<in> set (inorder r)" by auto
  then show ?case
  proof
    assume xl: "x \<in> set (inorder l)"
    show ?thesis
    proof (cases "left n = Some x")
      case True
      with n(3) have "is_tree h (Some a) (Some x) l" by simp
      with xl Nd.prems(5,6) have "q = a"
        by (cases l) auto
      with xl xa Nd.prems(2) sub_at_subset [of x l] show ?thesis by auto
    next
      case False
      from Nd.IH(1) [OF n(3) _ xl False Nd.prems(5,6)] Nd.prems(2) xl xa show ?thesis by auto
    qed
  next
    assume xr: "x \<in> set (inorder r)"
    with Nd.prems(2) have xl: "x \<notin> set (inorder l)" by auto
    show ?thesis
    proof (cases "right n = Some x")
      case True
      with n(4) have "is_tree h (Some a) (Some x) r" by simp
      with xr Nd.prems(5,6) have "q = a"
        by (cases r) auto
      with xr xl xa Nd.prems(2) sub_at_subset [of x r] show ?thesis by auto
    next
      case False
      from Nd.IH(2) [OF n(4) _ xr False Nd.prems(5,6)] Nd.prems(2) xr xl xa show ?thesis by auto
    qed
  qed
qed

text \<open>Replacing the subtree below a node by another one with a new root.\<close>

lemma is_tree_subst_at:
  assumes "is_tree h par q s" and "distinct (inorder s)" and "x \<in> set (inorder s)"
    and "h x = Some xn"
    and "is_tree h' (parent xn) (Some y) u"
    and "\<And>a. a \<notin> set (inorder (sub_at x s)) \<Longrightarrow> Some a \<noteq> parent xn \<Longrightarrow> h' a = h a"
    and "\<And>p pn. parent xn = Some p \<Longrightarrow> h p = Some pn \<Longrightarrow>
           \<exists>pn'. h' p = Some pn' \<and> parent pn' = parent pn \<and>
             ((left pn = Some x \<and> left pn' = Some y \<and> right pn' = right pn) \<or>
              (right pn = Some x \<and> right pn' = Some y \<and> left pn' = left pn))"
  shows "is_tree h' par (if q = Some x then Some y else q) (subst_at x u s)"
  using assms(1,2,3,6)
proof (induction s arbitrary: par q)
  case Tip
  then show ?case by simp
next
  case (Nd l a r)
  from Nd.prems obtain n where n: "h a = Some n" "q = Some a" "parent n = par"
    "is_tree h (Some a) (left n) l" "is_tree h (Some a) (right n) r"
    by auto
  show ?case
  proof (cases "a = x")
    case True
    with n assms(4,5) show ?thesis by simp
  next
    case False
    note xa = this
    with Nd.prems have "x \<in> set (inorder l) \<or> x \<in> set (inorder r)" by auto
    then show ?thesis
    proof
      assume xl: "x \<in> set (inorder l)"
      with Nd.prems(2) have xr: "x \<notin> set (inorder r)" by auto
      have sub: "sub_at x (Nd l a r) = sub_at x l" using xa xl by simp
      have out: "\<And>b. b \<notin> set (inorder (sub_at x l)) \<Longrightarrow> Some b \<noteq> parent xn \<Longrightarrow> h' b = h b"
        using Nd.prems(4) sub by simp
      have dl: "distinct (inorder l)" using Nd.prems(2) by simp
      have a_out: "a \<notin> set (inorder (sub_at x l))"
        using sub_at_subset [of x l] Nd.prems(2) by auto
      have IH: "is_tree h' (Some a) (if left n = Some x then Some y else left n) (subst_at x u l)"
        by (rule Nd.IH(1) [OF n(4) dl xl out])
      show ?thesis
      proof (cases "left n = Some x")
        case True
        with n(4) have "is_tree h (Some a) (Some x) l" by simp
        with assms(4) have pa: "parent xn = Some a" by (cases l) auto
        from assms(7) [OF pa n(1)] obtain n' where n': "h' a = Some n'" "parent n' = parent n"
          "(left n = Some x \<and> left n' = Some y \<and> right n' = right n) \<or>
           (right n = Some x \<and> right n' = Some y \<and> left n' = left n)"
          by auto
        have "right n \<noteq> Some x"
          using n(5) xr by (auto dest: is_tree_root_in)
        with n' have ln': "left n' = Some y" "right n' = right n" by auto
        have "is_tree h' (Some a) (right n) r"
        proof (rule is_tree_frame [OF n(5)])
          fix b assume b: "b \<in> set (inorder r)"
          with Nd.prems(2) sub_at_subset [of x l] have "b \<notin> set (inorder (sub_at x l))" "b \<noteq> a"
            by auto
          with pa out show "h' b = h b" by auto
        qed
        with IH True n n' ln' xa xl show ?thesis by simp
      next
        case False
        from is_tree_parent [OF n(4) xl False assms(4)] obtain p where
          p: "parent xn = Some p" "p \<in> set (inorder l)" by auto
        with Nd.prems(2) have "Some a \<noteq> parent xn" by auto
        with a_out out have ha: "h' a = h a" by simp
        have "is_tree h' (Some a) (right n) r"
        proof (rule is_tree_frame [OF n(5)])
          fix b assume b: "b \<in> set (inorder r)"
          with Nd.prems(2) sub_at_subset [of x l] p have "b \<notin> set (inorder (sub_at x l))" "Some b \<noteq> parent xn"
            by auto
          with out show "h' b = h b" by auto
        qed
        with IH False n ha xa xl show ?thesis by simp
      qed
    next
      assume xr: "x \<in> set (inorder r)"
      with Nd.prems(2) have xl: "x \<notin> set (inorder l)" by auto
      have sub: "sub_at x (Nd l a r) = sub_at x r" using xa xl by simp
      have out: "\<And>b. b \<notin> set (inorder (sub_at x r)) \<Longrightarrow> Some b \<noteq> parent xn \<Longrightarrow> h' b = h b"
        using Nd.prems(4) sub by simp
      have dr: "distinct (inorder r)" using Nd.prems(2) by simp
      have a_out: "a \<notin> set (inorder (sub_at x r))"
        using sub_at_subset [of x r] Nd.prems(2) by auto
      have IH: "is_tree h' (Some a) (if right n = Some x then Some y else right n) (subst_at x u r)"
        by (rule Nd.IH(2) [OF n(5) dr xr out])
      show ?thesis
      proof (cases "right n = Some x")
        case True
        with n(5) have "is_tree h (Some a) (Some x) r" by simp
        with assms(4) have pa: "parent xn = Some a" by (cases r) auto
        from assms(7) [OF pa n(1)] obtain n' where n': "h' a = Some n'" "parent n' = parent n"
          "(left n = Some x \<and> left n' = Some y \<and> right n' = right n) \<or>
           (right n = Some x \<and> right n' = Some y \<and> left n' = left n)"
          by auto
        have "left n \<noteq> Some x"
          using n(4) xl by (auto dest: is_tree_root_in)
        with n' have ln': "right n' = Some y" "left n' = left n" by auto
        have "is_tree h' (Some a) (left n) l"
        proof (rule is_tree_frame [OF n(4)])
          fix b assume b: "b \<in> set (inorder l)"
          with Nd.prems(2) sub_at_subset [of x r] have "b \<notin> set (inorder (sub_at x r))" "b \<noteq> a"
            by auto
          with pa out show "h' b = h b" by auto
        qed
        with IH True n n' ln' xa xl show ?thesis by simp
      next
        case False
        from is_tree_parent [OF n(5) xr False assms(4)] obtain p where
          p: "parent xn = Some p" "p \<in> set (inorder r)" by auto
        with Nd.prems(2) have "Some a \<noteq> parent xn" by auto
        with a_out out have ha: "h' a = h a" by simp
        have "is_tree h' (Some a) (left n) l"
        proof (rule is_tree_frame [OF n(4)])
          fix b assume b: "b \<in> set (inorder l)"
          with Nd.prems(2) sub_at_subset [of x r] p have "b \<notin> set (inorder (sub_at x r))" "Some b \<noteq> parent xn"
            by auto
          with out show "h' b = h b" by auto
        qed
        with IH False n ha xa xl show ?thesis by simp
      qed
    qed
  qed
qed

lemma inorder_rotl [simp]: "inorder (rotl s) = inorder s"
  by (induction s rule: rotl.induct) auto

lemma inorder_rotr [simp]: "inorder (rotr s) = inorder s"
  by (induction s rule: rotr.induct) auto

lemma inorder_rotate_left_at [simp]: "inorder (rotate_left_at x s) = inorder s"
  unfolding rotate_left_at_def
  by (cases "x \<in> set (inorder s)") (auto simp: inorder_subst_at, induction s, auto)

lemma is_tree_root_notin: "is_tree h par p s \<Longrightarrow> a \<notin> set (inorder s) \<Longrightarrow> Some a \<noteq> p"
  by (cases s) auto

lemma leftRotate_correct:
  assumes wf: "well_formed t s" and x: "x \<in> set (inorder s)"
    and hx: "mem t x = Some xn" and xr: "right xn = Some y"
  shows "\<exists>t' yn. mem t y = Some yn \<and> leftRotate (Some x) t = Some t'
     \<and> well_formed t' (rotate_left_at x s)
     \<and> brk t' = brk t
     \<and> root t' = (if root t = Some x then Some y else root t)
     \<and> mem t' x = Some (xn\<lparr>right := left yn, parent := Some y\<rparr>)
     \<and> mem t' y = Some (yn\<lparr>left := Some x, parent := parent xn\<rparr>)
     \<and> (\<forall>b bn. left yn = Some b \<and> mem t b = Some bn \<longrightarrow> mem t' b = Some (bn\<lparr>parent := Some x\<rparr>))
     \<and> (\<forall>p pn. parent xn = Some p \<and> mem t p = Some pn \<longrightarrow>
           mem t' p = Some (if left pn = Some x then pn\<lparr>left := Some y\<rparr> else pn\<lparr>right := Some y\<rparr>))
     \<and> (\<forall>a. a \<noteq> x \<and> a \<noteq> y \<and> Some a \<noteq> left yn \<and> Some a \<noteq> parent xn \<longrightarrow> mem t' a = mem t a)"
proof -
  let ?h = "mem t"
  from wf have tr: "is_tree ?h None (root t) s" and d: "distinct (inorder s)"
    by (auto simp: well_formed_def)
  from sub_at_root [OF x] obtain l r0 where sub: "sub_at x s = Nd l x r0" by auto
  from is_tree_sub_at [OF tr x hx] sub hx xr
  have tl: "is_tree ?h (Some x) (left xn) l" and tr0: "is_tree ?h (Some x) (Some y) r0"
    by auto
  from tr0 obtain rl rr yn where r0: "r0 = Nd rl y rr" and hy: "?h y = Some yn"
    and py: "parent yn = Some x"
    and trl: "is_tree ?h (Some y) (left yn) rl" and trr: "is_tree ?h (Some y) (right yn) rr"
    by (cases r0) auto
  have dsub: "distinct (inorder (Nd l x (Nd rl y rr)))"
    using sub_at_distinct [OF d, of x] sub r0 by simp
  then have xy: "x \<noteq> y" by auto
  have subset: "set (inorder (Nd l x (Nd rl y rr))) \<subseteq> set (inorder s)"
    using sub_at_subset [of x s] sub r0 by simp
  have b: "left yn = None \<or> (\<exists>b bn. left yn = Some b \<and> ?h b = Some bn \<and> b \<noteq> x \<and> b \<noteq> y)"
  proof (cases "left yn")
    case None
    then show ?thesis by simp
  next
    case (Some b)
    with trl have "b \<in> set (inorder rl)" by (auto dest: is_tree_root_in)
    moreover from this is_tree_mem [OF trl] obtain bn where "?h b = Some bn" by auto
    ultimately show ?thesis using Some dsub by auto
  qed
  have p: "(parent xn = None \<and> root t = Some x) \<or>
      (\<exists>p pn. parent xn = Some p \<and> ?h p = Some pn \<and> p \<noteq> x \<and> p \<noteq> y \<and> Some p \<noteq> left yn
         \<and> (left pn = Some x \<or> right pn = Some x) \<and> root t \<noteq> Some x)"
  proof (cases "root t = Some x")
    case True
    with tr hx have "parent xn = None" by (cases s) auto
    with True show ?thesis by simp
  next
    case False
    from is_tree_parent [OF tr x False hx] obtain q qn where
      q: "parent xn = Some q" "?h q = Some qn" "left qn = Some x \<or> right qn = Some x"
      by auto
    from is_tree_parent_outside [OF tr d x False hx q(1)]
    have qo: "q \<notin> set (inorder (Nd l x (Nd rl y rr)))" using sub r0 by simp
    have "Some q \<noteq> left yn"
      using qo by (intro is_tree_root_notin [OF trl]) simp
    with q qo False show ?thesis by auto
  qed
  then have p': "parent xn = None \<or>
      (\<exists>p pn. parent xn = Some p \<and> ?h p = Some pn \<and> p \<noteq> x \<and> p \<noteq> y \<and> Some p \<noteq> left yn)"
    by auto
  from leftRotate_result [OF hx xr hy xy b p'] obtain t' where
    t': "leftRotate (Some x) t = Some t'" "brk t' = brk t"
      "root t' = (if parent xn = None then Some y else root t)"
      "mem t' x = Some (xn\<lparr>right := left yn, parent := Some y\<rparr>)"
      "mem t' y = Some (yn\<lparr>left := Some x, parent := parent xn\<rparr>)"
      "\<forall>b bn. left yn = Some b \<and> ?h b = Some bn \<longrightarrow> mem t' b = Some (bn\<lparr>parent := Some x\<rparr>)"
      "\<forall>p pn. parent xn = Some p \<and> ?h p = Some pn \<longrightarrow>
           mem t' p = Some (if left pn = Some x then pn\<lparr>left := Some y\<rparr> else pn\<lparr>right := Some y\<rparr>)"
      "\<forall>a. a \<noteq> x \<and> a \<noteq> y \<and> Some a \<noteq> left yn \<and> Some a \<noteq> parent xn \<longrightarrow> mem t' a = ?h a"
    by blast
  let ?h' = "mem t'"
  have par_out: "\<And>a. a \<in> set (inorder (Nd l x (Nd rl y rr))) \<Longrightarrow> Some a \<noteq> parent xn"
    using p is_tree_parent_outside [OF tr d x _ hx] sub r0
    by (metis option.distinct(1))
  have fl: "is_tree ?h' (Some x) (left xn) l"
  proof (rule is_tree_frame [OF tl])
    fix a assume a: "a \<in> set (inorder l)"
    have "Some a \<noteq> left yn"
      using a dsub by (intro is_tree_root_notin [OF trl]) auto
    with a dsub par_out [of a] t'(8) show "?h' a = ?h a" by auto
  qed
  have frr: "is_tree ?h' (Some y) (right yn) rr"
  proof (rule is_tree_frame [OF trr])
    fix a assume a: "a \<in> set (inorder rr)"
    have "Some a \<noteq> left yn"
      using a dsub by (intro is_tree_root_notin [OF trl]) auto
    with a dsub par_out [of a] t'(8) show "?h' a = ?h a" by auto
  qed
  have frl: "is_tree ?h' (Some x) (left yn) rl"
  proof (cases rl)
    case Tip
    with trl show ?thesis by simp
  next
    case (Nd bl b br)
    with trl obtain bn where bn: "left yn = Some b" "?h b = Some bn" by auto
    with t'(6) have hb': "?h' b = Some (bn\<lparr>parent := Some x\<rparr>)" by blast
    have "is_tree ?h' (Some x) (Some b) (Nd bl b br)"
    proof (rule is_tree_reparent [where h = "mem t" and par = "Some y" and n = bn])
      show "mem t b = Some bn" by (rule bn(2))
      show "mem t' b = Some (bn\<lparr>parent := Some x\<rparr>)" by (rule hb')
      show "is_tree ?h (Some y) (Some b) (Nd bl b br)" using trl bn Nd by simp
      show "b \<notin> set (inorder bl)" "b \<notin> set (inorder br)" using dsub Nd by auto
      fix a assume a: "a \<in> set (inorder bl) \<union> set (inorder br)"
      with dsub Nd bn par_out [of a] t'(8) show "?h' a = ?h a" by auto
    qed
    with bn Nd show ?thesis by simp
  qed
  have new: "is_tree ?h' (parent xn) (Some y) (rotl (sub_at x s))"
    using sub r0 t'(4,5) fl frl frr by simp
  have out: "\<And>a. a \<notin> set (inorder (sub_at x s)) \<Longrightarrow> Some a \<noteq> parent xn \<Longrightarrow> ?h' a = ?h a"
  proof -
    fix a assume a: "a \<notin> set (inorder (sub_at x s))" "Some a \<noteq> parent xn"
    have "Some a \<noteq> left yn"
      using a sub r0 by (intro is_tree_root_notin [OF trl]) auto
    with a sub r0 t'(8) show "?h' a = ?h a" by auto
  qed
  have link: "\<And>p pn. parent xn = Some p \<Longrightarrow> ?h p = Some pn \<Longrightarrow>
           \<exists>pn'. ?h' p = Some pn' \<and> parent pn' = parent pn \<and>
             ((left pn = Some x \<and> left pn' = Some y \<and> right pn' = right pn) \<or>
              (right pn = Some x \<and> right pn' = Some y \<and> left pn' = left pn))"
  proof -
    fix q qn assume q: "parent xn = Some q" "?h q = Some qn"
    with p have c: "left qn = Some x \<or> right qn = Some x" by auto
    from q t'(7) have "?h' q = Some (if left qn = Some x then qn\<lparr>left := Some y\<rparr> else qn\<lparr>right := Some y\<rparr>)"
      by blast
    with c show "\<exists>pn'. ?h' q = Some pn' \<and> parent pn' = parent qn \<and>
             ((left qn = Some x \<and> left pn' = Some y \<and> right pn' = right qn) \<or>
              (right qn = Some x \<and> right pn' = Some y \<and> left pn' = left qn))"
      by auto
  qed
  have rt: "root t' = (if root t = Some x then Some y else root t)"
    using t'(3) p by auto
  have "is_tree ?h' None (if root t = Some x then Some y else root t) (rotate_left_at x s)"
    unfolding rotate_left_at_def
    by (rule is_tree_subst_at [OF tr d x hx new out link])
  with rt d have "well_formed t' (rotate_left_at x s)"
    by (simp add: well_formed_def)
  with t' rt hy show ?thesis by blast
qed

lemma inorder_rotate_right_at [simp]: "inorder (rotate_right_at x s) = inorder s"
  unfolding rotate_right_at_def
  by (cases "x \<in> set (inorder s)") (auto simp: inorder_subst_at, induction s, auto)

lemma rightRotate_correct:
  assumes wf: "well_formed t s" and x: "x \<in> set (inorder s)"
    and hx: "mem t x = Some xn" and xr: "left xn = Some y"
  shows "\<exists>t' yn. mem t y = Some yn \<and> rightRotate (Some x) t = Some t'
     \<and> well_formed t' (rotate_right_at x s)
     \<and> brk t' = brk t
     \<and> root t' = (if root t = Some x then Some y else root t)
     \<and> mem t' x = Some (xn\<lparr>left := right yn, parent := Some y\<rparr>)
     \<and> mem t' y = Some (yn\<lparr>right := Some x, parent := parent xn\<rparr>)
     \<and> (\<forall>b bn. right yn = Some b \<and> mem t b = Some bn \<longrightarrow> mem t' b = Some (bn\<lparr>parent := Some x\<rparr>))
     \<and> (\<forall>p pn. parent xn = Some p \<and> mem t p = Some pn \<longrightarrow>
           mem t' p = Some (if right pn = Some x then pn\<lparr>right := Some y\<rparr> else pn\<lparr>left := Some y\<rparr>))
     \<and> (\<forall>a. a \<noteq> x \<and> a \<noteq> y \<and> Some a \<noteq> right yn \<and> Some a \<noteq> parent xn \<longrightarrow> mem t' a = mem t a)"
proof -
  let ?h = "mem t"
  from wf have tr: "is_tree ?h None (root t) s" and d: "distinct (inorder s)"
    by (auto simp: well_formed_def)
  from sub_at_root [OF x] obtain r0 l where sub: "sub_at x s = Nd r0 x l" by auto
  from is_tree_sub_at [OF tr x hx] sub hx xr
  have tl: "is_tree ?h (Some x) (right xn) l" and tr0: "is_tree ?h (Some x) (Some y) r0"
    by auto
  from tr0 obtain rr rl yn where r0: "r0 = Nd rr y rl" and hy: "?h y = Some yn"
    and py: "parent yn = Some x"
    and trl: "is_tree ?h (Some y) (right yn) rl" and trr: "is_tree ?h (Some y) (left yn) rr"
    by (cases r0) auto
  have dsub: "distinct (inorder (Nd (Nd rr y rl) x l))"
    using sub_at_distinct [OF d, of x] sub r0 by simp
  then have xy: "x \<noteq> y" by auto
  have subset: "set (inorder (Nd (Nd rr y rl) x l)) \<subseteq> set (inorder s)"
    using sub_at_subset [of x s] sub r0 by simp
  have b: "right yn = None \<or> (\<exists>b bn. right yn = Some b \<and> ?h b = Some bn \<and> b \<noteq> x \<and> b \<noteq> y)"
  proof (cases "right yn")
    case None
    then show ?thesis by simp
  next
    case (Some b)
    with trl have "b \<in> set (inorder rl)" by (auto dest: is_tree_root_in)
    moreover from this is_tree_mem [OF trl] obtain bn where "?h b = Some bn" by auto
    ultimately show ?thesis using Some dsub by auto
  qed
  have p: "(parent xn = None \<and> root t = Some x) \<or>
      (\<exists>p pn. parent xn = Some p \<and> ?h p = Some pn \<and> p \<noteq> x \<and> p \<noteq> y \<and> Some p \<noteq> right yn
         \<and> (right pn = Some x \<or> left pn = Some x) \<and> root t \<noteq> Some x)"
  proof (cases "root t = Some x")
    case True
    with tr hx have "parent xn = None" by (cases s) auto
    with True show ?thesis by simp
  next
    case False
    from is_tree_parent [OF tr x False hx] obtain q qn where
      q: "parent xn = Some q" "?h q = Some qn" "right qn = Some x \<or> left qn = Some x"
      by auto
    from is_tree_parent_outside [OF tr d x False hx q(1)]
    have qo: "q \<notin> set (inorder (Nd (Nd rr y rl) x l))" using sub r0 by simp
    have "Some q \<noteq> right yn"
      using qo by (intro is_tree_root_notin [OF trl]) simp
    with q qo False show ?thesis by auto
  qed
  then have p': "parent xn = None \<or>
      (\<exists>p pn. parent xn = Some p \<and> ?h p = Some pn \<and> p \<noteq> x \<and> p \<noteq> y \<and> Some p \<noteq> right yn)"
    by auto
  from rightRotate_result [OF hx xr hy xy b p'] obtain t' where
    t': "rightRotate (Some x) t = Some t'" "brk t' = brk t"
      "root t' = (if parent xn = None then Some y else root t)"
      "mem t' x = Some (xn\<lparr>left := right yn, parent := Some y\<rparr>)"
      "mem t' y = Some (yn\<lparr>right := Some x, parent := parent xn\<rparr>)"
      "\<forall>b bn. right yn = Some b \<and> ?h b = Some bn \<longrightarrow> mem t' b = Some (bn\<lparr>parent := Some x\<rparr>)"
      "\<forall>p pn. parent xn = Some p \<and> ?h p = Some pn \<longrightarrow>
           mem t' p = Some (if right pn = Some x then pn\<lparr>right := Some y\<rparr> else pn\<lparr>left := Some y\<rparr>)"
      "\<forall>a. a \<noteq> x \<and> a \<noteq> y \<and> Some a \<noteq> right yn \<and> Some a \<noteq> parent xn \<longrightarrow> mem t' a = ?h a"
    by blast
  let ?h' = "mem t'"
  have par_out: "\<And>a. a \<in> set (inorder (Nd (Nd rr y rl) x l)) \<Longrightarrow> Some a \<noteq> parent xn"
    using p is_tree_parent_outside [OF tr d x _ hx] sub r0
    by (metis option.distinct(1))
  have fl: "is_tree ?h' (Some x) (right xn) l"
  proof (rule is_tree_frame [OF tl])
    fix a assume a: "a \<in> set (inorder l)"
    have "Some a \<noteq> right yn"
      using a dsub by (intro is_tree_root_notin [OF trl]) auto
    with a dsub par_out [of a] t'(8) show "?h' a = ?h a" by auto
  qed
  have frr: "is_tree ?h' (Some y) (left yn) rr"
  proof (rule is_tree_frame [OF trr])
    fix a assume a: "a \<in> set (inorder rr)"
    have "Some a \<noteq> right yn"
      using a dsub by (intro is_tree_root_notin [OF trl]) auto
    with a dsub par_out [of a] t'(8) show "?h' a = ?h a" by auto
  qed
  have frl: "is_tree ?h' (Some x) (right yn) rl"
  proof (cases rl)
    case Tip
    with trl show ?thesis by simp
  next
    case (Nd bl b br)
    with trl obtain bn where bn: "right yn = Some b" "?h b = Some bn" by auto
    with t'(6) have hb': "?h' b = Some (bn\<lparr>parent := Some x\<rparr>)" by blast
    have "is_tree ?h' (Some x) (Some b) (Nd bl b br)"
    proof (rule is_tree_reparent [where h = "mem t" and par = "Some y" and n = bn])
      show "mem t b = Some bn" by (rule bn(2))
      show "mem t' b = Some (bn\<lparr>parent := Some x\<rparr>)" by (rule hb')
      show "is_tree ?h (Some y) (Some b) (Nd bl b br)" using trl bn Nd by simp
      show "b \<notin> set (inorder bl)" "b \<notin> set (inorder br)" using dsub Nd by auto
      fix a assume a: "a \<in> set (inorder bl) \<union> set (inorder br)"
      with dsub Nd bn par_out [of a] t'(8) show "?h' a = ?h a" by auto
    qed
    with bn Nd show ?thesis by simp
  qed
  have new: "is_tree ?h' (parent xn) (Some y) (rotr (sub_at x s))"
    using sub r0 t'(4,5) fl frl frr by simp
  have out: "\<And>a. a \<notin> set (inorder (sub_at x s)) \<Longrightarrow> Some a \<noteq> parent xn \<Longrightarrow> ?h' a = ?h a"
  proof -
    fix a assume a: "a \<notin> set (inorder (sub_at x s))" "Some a \<noteq> parent xn"
    have "Some a \<noteq> right yn"
      using a sub r0 by (intro is_tree_root_notin [OF trl]) auto
    with a sub r0 t'(8) show "?h' a = ?h a" by auto
  qed
  have link: "\<And>p pn. parent xn = Some p \<Longrightarrow> ?h p = Some pn \<Longrightarrow>
           \<exists>pn'. ?h' p = Some pn' \<and> parent pn' = parent pn \<and>
             ((left pn = Some x \<and> left pn' = Some y \<and> right pn' = right pn) \<or>
              (right pn = Some x \<and> right pn' = Some y \<and> left pn' = left pn))"
  proof -
    fix q qn assume q: "parent xn = Some q" "?h q = Some qn"
    with p have c: "right qn = Some x \<or> left qn = Some x" by auto
    from q t'(7) have "?h' q = Some (if right qn = Some x then qn\<lparr>right := Some y\<rparr> else qn\<lparr>left := Some y\<rparr>)"
      by blast
    with c show "\<exists>pn'. ?h' q = Some pn' \<and> parent pn' = parent qn \<and>
             ((left qn = Some x \<and> left pn' = Some y \<and> right pn' = right qn) \<or>
              (right qn = Some x \<and> right pn' = Some y \<and> left pn' = left qn))"
      by auto
  qed
  have rt: "root t' = (if root t = Some x then Some y else root t)"
    using t'(3) p by auto
  have "is_tree ?h' None (if root t = Some x then Some y else root t) (rotate_right_at x s)"
    unfolding rotate_right_at_def
    by (rule is_tree_subst_at [OF tr d x hx new out link])
  with rt d have "well_formed t' (rotate_right_at x s)"
    by (simp add: well_formed_def)
  with t' rt hy show ?thesis by blast
qed

lemma inorder_values_cong:
  "(\<And>a. map_option data (mem t' a) = map_option data (mem t a)) \<Longrightarrow> inorder s' = inorder s \<Longrightarrow>
   inorder_values t' s' = inorder_values t s"
  by (simp add: inorder_values_def)

text \<open>A node is not the left and the right child of the same node.\<close>

lemma is_tree_one_child:
  assumes "is_tree h par q s" and "distinct (inorder s)" and "p \<in> set (inorder s)"
    and "h p = Some pn" and "left pn = Some x"
  shows "right pn \<noteq> Some x"
proof -
  from sub_at_root [OF assms(3)] obtain l r where sub: "sub_at p s = Nd l p r" by auto
  from is_tree_sub_at [OF assms(1,3,4)] sub assms(4)
  have "is_tree h (Some p) (left pn) l" "is_tree h (Some p) (right pn) r" by auto
  with assms(5) have "x \<in> set (inorder l)" "right pn = Some x \<longrightarrow> x \<in> set (inorder r)"
    by (auto dest: is_tree_root_in)
  with sub_at_distinct [OF assms(2), of p] sub show ?thesis by auto
qed

lemma leftRotate_claim:
  assumes wf: "well_formed t s" and x: "x \<in> set (inorder s)"
    and hx: "mem t x = Some xn" and xr: "right xn = Some y"
  shows "\<exists>t' yn. mem t y = Some yn \<and> leftRotate (Some x) t = Some t'
     \<and> (\<exists>s'. well_formed t' s' \<and> inorder s' = inorder s \<and> inorder_values t' s' = inorder_values t s)
     \<and> (\<forall>a. map_option color (mem t' a) = map_option color (mem t a))
     \<and> (\<forall>a. map_option data (mem t' a) = map_option data (mem t a))
     \<and> fld right (Some x) t' = Some (left yn)
     \<and> (\<forall>b. left yn = Some b \<longrightarrow> fld parent (Some b) t' = Some (Some x))
     \<and> fld left (Some y) t' = Some (Some x)
     \<and> fld parent (Some x) t' = Some (Some y)
     \<and> fld parent (Some y) t' = Some (parent xn)
     \<and> (\<forall>p. parent xn = Some p \<longrightarrow>
           (fld left (Some p) t = Some (Some x) \<longrightarrow> fld left (Some p) t' = Some (Some y)) \<and>
           (fld right (Some p) t = Some (Some x) \<longrightarrow> fld right (Some p) t' = Some (Some y)))
     \<and> (root t = Some x \<longrightarrow> root t' = Some y)
     \<and> (root t \<noteq> Some x \<longrightarrow> root t' = root t)"
proof -
  from wf have tr: "is_tree (mem t) None (root t) s" and d: "distinct (inorder s)"
    by (auto simp: well_formed_def)
  from leftRotate_correct [OF wf x hx xr] obtain t' yn where
    hy: "mem t y = Some yn" and t': "leftRotate (Some x) t = Some t'"
      "well_formed t' (rotate_left_at x s)"
      "root t' = (if root t = Some x then Some y else root t)"
      "mem t' x = Some (xn\<lparr>right := left yn, parent := Some y\<rparr>)"
      "mem t' y = Some (yn\<lparr>left := Some x, parent := parent xn\<rparr>)"
      "\<forall>b bn. left yn = Some b \<and> mem t b = Some bn \<longrightarrow> mem t' b = Some (bn\<lparr>parent := Some x\<rparr>)"
      "\<forall>p pn. parent xn = Some p \<and> mem t p = Some pn \<longrightarrow>
           mem t' p = Some (if left pn = Some x then pn\<lparr>left := Some y\<rparr> else pn\<lparr>right := Some y\<rparr>)"
      "\<forall>a. a \<noteq> x \<and> a \<noteq> y \<and> Some a \<noteq> left yn \<and> Some a \<noteq> parent xn \<longrightarrow> mem t' a = mem t a"
    by blast
  have yin: "y \<in> set (inorder s)"
    using is_tree_child_in [OF tr x hx] xr by simp
  have bmem: "\<And>b. left yn = Some b \<Longrightarrow> \<exists>bn. mem t b = Some bn"
    using is_tree_child_in [OF tr yin hy] is_tree_mem [OF tr] by blast
  have pmem: "\<And>p. parent xn = Some p \<Longrightarrow> \<exists>pn. mem t p = Some pn \<and> p \<in> set (inorder s)"
  proof -
    fix p assume p: "parent xn = Some p"
    with tr hx have "root t \<noteq> Some x" by (cases s) auto
    from is_tree_parent [OF tr x this hx] p show "\<exists>pn. mem t p = Some pn \<and> p \<in> set (inorder s)"
      by auto
  qed
  have fields: "\<And>a. map_option color (mem t' a) = map_option color (mem t a) \<and>
                   map_option data (mem t' a) = map_option data (mem t a)"
  proof -
    fix a
    consider "a = x" | "a = y" | "Some a = left yn" | "Some a = parent xn"
      | "a \<noteq> x \<and> a \<noteq> y \<and> Some a \<noteq> left yn \<and> Some a \<noteq> parent xn" by blast
    then show "map_option color (mem t' a) = map_option color (mem t a) \<and>
               map_option data (mem t' a) = map_option data (mem t a)"
    proof cases
      case 1 with t'(4) hx show ?thesis by simp
    next
      case 2 with t'(5) hy show ?thesis by simp
    next
      case 3
      then have l: "left yn = Some a" by simp
      from bmem [OF l] obtain bn where "mem t a = Some bn" by auto
      with l t'(6) show ?thesis by auto
    next
      case 4
      then have l: "parent xn = Some a" by simp
      from pmem [OF l] obtain pn where "mem t a = Some pn" by auto
      with l t'(7) show ?thesis by auto
    next
      case 5 with t'(8) show ?thesis by simp
    qed
  qed
  have vals: "inorder_values t' (rotate_left_at x s) = inorder_values t s"
    by (rule inorder_values_cong) (simp_all add: fields)
  have repar: "\<forall>b. left yn = Some b \<longrightarrow> fld parent (Some b) t' = Some (Some x)"
  proof (intro allI impI)
    fix b assume l: "left yn = Some b"
    from bmem [OF l] obtain bn where "mem t b = Some bn" by auto
    with l t'(6) show "fld parent (Some b) t' = Some (Some x)" by auto
  qed
  have plink: "\<forall>p. parent xn = Some p \<longrightarrow>
           (fld left (Some p) t = Some (Some x) \<longrightarrow> fld left (Some p) t' = Some (Some y)) \<and>
           (fld right (Some p) t = Some (Some x) \<longrightarrow> fld right (Some p) t' = Some (Some y))"
  proof (intro allI impI)
    fix p assume l: "parent xn = Some p"
    from pmem [OF l] obtain pn where pn: "mem t p = Some pn" "p \<in> set (inorder s)" by auto
    with l t'(7) have p': "mem t' p = Some (if left pn = Some x then pn\<lparr>left := Some y\<rparr> else pn\<lparr>right := Some y\<rparr>)"
      by blast
    have "left pn = Some x \<Longrightarrow> right pn \<noteq> Some x"
      by (rule is_tree_one_child [OF tr d pn(2,1)])
    with pn p' show "(fld left (Some p) t = Some (Some x) \<longrightarrow> fld left (Some p) t' = Some (Some y)) \<and>
           (fld right (Some p) t = Some (Some x) \<longrightarrow> fld right (Some p) t' = Some (Some y))"
      by auto
  qed
  have "\<exists>s'. well_formed t' s' \<and> inorder s' = inorder s \<and> inorder_values t' s' = inorder_values t s"
    using t'(2) vals by (intro exI [of _ "rotate_left_at x s"]) simp
  with hy t'(1,3,4,5) fields repar plink show ?thesis
    by (intro exI [of _ t'] exI [of _ yn]) simp
qed

lemma rightRotate_claim:
  assumes wf: "well_formed t s" and x: "x \<in> set (inorder s)"
    and hx: "mem t x = Some xn" and xr: "left xn = Some y"
  shows "\<exists>t' yn. mem t y = Some yn \<and> rightRotate (Some x) t = Some t'
     \<and> (\<exists>s'. well_formed t' s' \<and> inorder s' = inorder s \<and> inorder_values t' s' = inorder_values t s)
     \<and> (\<forall>a. map_option color (mem t' a) = map_option color (mem t a))
     \<and> (\<forall>a. map_option data (mem t' a) = map_option data (mem t a))
     \<and> fld left (Some x) t' = Some (right yn)
     \<and> (\<forall>b. right yn = Some b \<longrightarrow> fld parent (Some b) t' = Some (Some x))
     \<and> fld right (Some y) t' = Some (Some x)
     \<and> fld parent (Some x) t' = Some (Some y)
     \<and> fld parent (Some y) t' = Some (parent xn)
     \<and> (\<forall>p. parent xn = Some p \<longrightarrow>
           (fld right (Some p) t = Some (Some x) \<longrightarrow> fld right (Some p) t' = Some (Some y)) \<and>
           (fld left (Some p) t = Some (Some x) \<longrightarrow> fld left (Some p) t' = Some (Some y)))
     \<and> (root t = Some x \<longrightarrow> root t' = Some y)
     \<and> (root t \<noteq> Some x \<longrightarrow> root t' = root t)"
proof -
  from wf have tr: "is_tree (mem t) None (root t) s" and d: "distinct (inorder s)"
    by (auto simp: well_formed_def)
  from rightRotate_correct [OF wf x hx xr] obtain t' yn where
    hy: "mem t y = Some yn" and t': "rightRotate (Some x) t = Some t'"
      "well_formed t' (rotate_right_at x s)"
      "root t' = (if root t = Some x then Some y else root t)"
      "mem t' x = Some (xn\<lparr>left := right yn, parent := Some y\<rparr>)"
      "mem t' y = Some (yn\<lparr>right := Some x, parent := parent xn\<rparr>)"
      "\<forall>b bn. right yn = Some b \<and> mem t b = Some bn \<longrightarrow> mem t' b = Some (bn\<lparr>parent := Some x\<rparr>)"
      "\<forall>p pn. parent xn = Some p \<and> mem t p = Some pn \<longrightarrow>
           mem t' p = Some (if right pn = Some x then pn\<lparr>right := Some y\<rparr> else pn\<lparr>left := Some y\<rparr>)"
      "\<forall>a. a \<noteq> x \<and> a \<noteq> y \<and> Some a \<noteq> right yn \<and> Some a \<noteq> parent xn \<longrightarrow> mem t' a = mem t a"
    by blast
  have yin: "y \<in> set (inorder s)"
    using is_tree_child_in [OF tr x hx] xr by simp
  have bmem: "\<And>b. right yn = Some b \<Longrightarrow> \<exists>bn. mem t b = Some bn"
    using is_tree_child_in [OF tr yin hy] is_tree_mem [OF tr] by blast
  have pmem: "\<And>p. parent xn = Some p \<Longrightarrow> \<exists>pn. mem t p = Some pn \<and> p \<in> set (inorder s)"
  proof -
    fix p assume p: "parent xn = Some p"
    with tr hx have "root t \<noteq> Some x" by (cases s) auto
    from is_tree_parent [OF tr x this hx] p show "\<exists>pn. mem t p = Some pn \<and> p \<in> set (inorder s)"
      by auto
  qed
  have fields: "\<And>a. map_option color (mem t' a) = map_option color (mem t a) \<and>
                   map_option data (mem t' a) = map_option data (mem t a)"
  proof -
    fix a
    consider "a = x" | "a = y" | "Some a = right yn" | "Some a = parent xn"
      | "a \<noteq> x \<and> a \<noteq> y \<and> Some a \<noteq> right yn \<and> Some a \<noteq> parent xn" by blast
    then show "map_option color (mem t' a) = map_option color (mem t a) \<and>
               map_option data (mem t' a) = map_option data (mem t a)"
    proof cases
      case 1 with t'(4) hx show ?thesis by simp
    next
      case 2 with t'(5) hy show ?thesis by simp
    next
      case 3
      then have l: "right yn = Some a" by simp
      from bmem [OF l] obtain bn where "mem t a = Some bn" by auto
      with l t'(6) show ?thesis by auto
    next
      case 4
      then have l: "parent xn = Some a" by simp
      from pmem [OF l] obtain pn where "mem t a = Some pn" by auto
      with l t'(7) show ?thesis by auto
    next
      case 5 with t'(8) show ?thesis by simp
    qed
  qed
  have vals: "inorder_values t' (rotate_right_at x s) = inorder_values t s"
    by (rule inorder_values_cong) (simp_all add: fields)
  have repar: "\<forall>b. right yn = Some b \<longrightarrow> fld parent (Some b) t' = Some (Some x)"
  proof (intro allI impI)
    fix b assume l: "right yn = Some b"
    from bmem [OF l] obtain bn where "mem t b = Some bn" by auto
    with l t'(6) show "fld parent (Some b) t' = Some (Some x)" by auto
  qed
  have plink: "\<forall>p. parent xn = Some p \<longrightarrow>
           (fld right (Some p) t = Some (Some x) \<longrightarrow> fld right (Some p) t' = Some (Some y)) \<and>
           (fld left (Some p) t = Some (Some x) \<longrightarrow> fld left (Some p) t' = Some (Some y))"
  proof (intro allI impI)
    fix p assume l: "parent xn = Some p"
    from pmem [OF l] obtain pn where pn: "mem t p = Some pn" "p \<in> set (inorder s)" by auto
    with l t'(7) have p': "mem t' p = Some (if right pn = Some x then pn\<lparr>right := Some y\<rparr> else pn\<lparr>left := Some y\<rparr>)"
      by blast
    have "right pn = Some x \<Longrightarrow> left pn \<noteq> Some x"
      using is_tree_one_child [OF tr d pn(2,1)] by auto
    with pn p' show "(fld right (Some p) t = Some (Some x) \<longrightarrow> fld right (Some p) t' = Some (Some y)) \<and>
           (fld left (Some p) t = Some (Some x) \<longrightarrow> fld left (Some p) t' = Some (Some y))"
      by auto
  qed
  have "\<exists>s'. well_formed t' s' \<and> inorder s' = inorder s \<and> inorder_values t' s' = inorder_values t s"
    using t'(2) vals by (intro exI [of _ "rotate_right_at x s"]) simp
  with hy t'(1,3,4,5) fields repar plink show ?thesis
    by (intro exI [of _ t'] exI [of _ yn]) simp
qed

subsection \<open>Rotations\<close>

text \<open>
  C8: let \<open>x\<close> be a node of a well-formed tree. If \<open>x\<close> has a right child \<open>y\<close>, then
  \<open>leftRotate(x)\<close> returns, and in the tree it leaves: the tree is well formed with the
  same in-order sequence of addresses and of values; every node has the colour and the
  value it had; the right link of \<open>x\<close> is the former left link of \<open>y\<close>, and the node it
  points at, if any, has \<open>x\<close> as its parent; \<open>x\<close> is the left child of \<open>y\<close>; the parent
  link of \<open>y\<close> is the former parent link of \<open>x\<close>, and the link of that parent that pointed at
  \<open>x\<close> points at \<open>y\<close>; the root is \<open>y\<close> if it was \<open>x\<close>, and is unchanged otherwise.
  The same holds for \<open>rightRotate(x)\<close> and a left child \<open>y\<close>, with left and right
  exchanged.
\<close>

theorem C8_rotations:
  assumes "well_formed t s" and "x \<in> set (inorder s)" and "mem t x = Some xn"
  shows "(\<forall>y. right xn = Some y \<longrightarrow>
     (\<exists>t' yn. mem t y = Some yn \<and> leftRotate (Some x) t = Some t'
     \<and> (\<exists>s'. well_formed t' s' \<and> inorder s' = inorder s \<and> inorder_values t' s' = inorder_values t s)
     \<and> (\<forall>a. map_option color (mem t' a) = map_option color (mem t a))
     \<and> (\<forall>a. map_option data (mem t' a) = map_option data (mem t a))
     \<and> fld right (Some x) t' = Some (left yn)
     \<and> (\<forall>b. left yn = Some b \<longrightarrow> fld parent (Some b) t' = Some (Some x))
     \<and> fld left (Some y) t' = Some (Some x)
     \<and> fld parent (Some x) t' = Some (Some y)
     \<and> fld parent (Some y) t' = Some (parent xn)
     \<and> (\<forall>p. parent xn = Some p \<longrightarrow>
           (fld left (Some p) t = Some (Some x) \<longrightarrow> fld left (Some p) t' = Some (Some y)) \<and>
           (fld right (Some p) t = Some (Some x) \<longrightarrow> fld right (Some p) t' = Some (Some y)))
     \<and> (root t = Some x \<longrightarrow> root t' = Some y)
     \<and> (root t \<noteq> Some x \<longrightarrow> root t' = root t)))
   \<and> (\<forall>y. left xn = Some y \<longrightarrow>
     (\<exists>t' yn. mem t y = Some yn \<and> rightRotate (Some x) t = Some t'
     \<and> (\<exists>s'. well_formed t' s' \<and> inorder s' = inorder s \<and> inorder_values t' s' = inorder_values t s)
     \<and> (\<forall>a. map_option color (mem t' a) = map_option color (mem t a))
     \<and> (\<forall>a. map_option data (mem t' a) = map_option data (mem t a))
     \<and> fld left (Some x) t' = Some (right yn)
     \<and> (\<forall>b. right yn = Some b \<longrightarrow> fld parent (Some b) t' = Some (Some x))
     \<and> fld right (Some y) t' = Some (Some x)
     \<and> fld parent (Some x) t' = Some (Some y)
     \<and> fld parent (Some y) t' = Some (parent xn)
     \<and> (\<forall>p. parent xn = Some p \<longrightarrow>
           (fld right (Some p) t = Some (Some x) \<longrightarrow> fld right (Some p) t' = Some (Some y)) \<and>
           (fld left (Some p) t = Some (Some x) \<longrightarrow> fld left (Some p) t' = Some (Some y)))
     \<and> (root t = Some x \<longrightarrow> root t' = Some y)
     \<and> (root t \<noteq> Some x \<longrightarrow> root t' = root t)))"
proof (intro conjI allI impI)
  fix y assume "right xn = Some y"
  from leftRotate_claim [OF assms this] show "\<exists>t' yn. mem t y = Some yn \<and> leftRotate (Some x) t = Some t'
     \<and> (\<exists>s'. well_formed t' s' \<and> inorder s' = inorder s \<and> inorder_values t' s' = inorder_values t s)
     \<and> (\<forall>a. map_option color (mem t' a) = map_option color (mem t a))
     \<and> (\<forall>a. map_option data (mem t' a) = map_option data (mem t a))
     \<and> fld right (Some x) t' = Some (left yn)
     \<and> (\<forall>b. left yn = Some b \<longrightarrow> fld parent (Some b) t' = Some (Some x))
     \<and> fld left (Some y) t' = Some (Some x)
     \<and> fld parent (Some x) t' = Some (Some y)
     \<and> fld parent (Some y) t' = Some (parent xn)
     \<and> (\<forall>p. parent xn = Some p \<longrightarrow>
           (fld left (Some p) t = Some (Some x) \<longrightarrow> fld left (Some p) t' = Some (Some y)) \<and>
           (fld right (Some p) t = Some (Some x) \<longrightarrow> fld right (Some p) t' = Some (Some y)))
     \<and> (root t = Some x \<longrightarrow> root t' = Some y)
     \<and> (root t \<noteq> Some x \<longrightarrow> root t' = root t)" .
next
  fix y assume "left xn = Some y"
  from rightRotate_claim [OF assms this] show "\<exists>t' yn. mem t y = Some yn \<and> rightRotate (Some x) t = Some t'
     \<and> (\<exists>s'. well_formed t' s' \<and> inorder s' = inorder s \<and> inorder_values t' s' = inorder_values t s)
     \<and> (\<forall>a. map_option color (mem t' a) = map_option color (mem t a))
     \<and> (\<forall>a. map_option data (mem t' a) = map_option data (mem t a))
     \<and> fld left (Some x) t' = Some (right yn)
     \<and> (\<forall>b. right yn = Some b \<longrightarrow> fld parent (Some b) t' = Some (Some x))
     \<and> fld right (Some y) t' = Some (Some x)
     \<and> fld parent (Some x) t' = Some (Some y)
     \<and> fld parent (Some y) t' = Some (parent xn)
     \<and> (\<forall>p. parent xn = Some p \<longrightarrow>
           (fld right (Some p) t = Some (Some x) \<longrightarrow> fld right (Some p) t' = Some (Some y)) \<and>
           (fld left (Some p) t = Some (Some x) \<longrightarrow> fld left (Some p) t' = Some (Some y)))
     \<and> (root t = Some x \<longrightarrow> root t' = Some y)
     \<and> (root t \<noteq> Some x \<longrightarrow> root t' = root t)" .
qed

theorem C8_rotations_witness:
  "well_formed example_tree example_shape
   \<and> 1 \<in> set (inorder example_shape)
   \<and> mem example_tree 1 = Some \<lparr>parent = None, right = Some 2, left = Some 0, data = 20, color = BLACK\<rparr>
   \<and> (\<exists>t'. leftRotate (Some 1) example_tree = Some t' \<and> root t' = Some 2
         \<and> fld left (Some 2) t' = Some (Some 1)
         \<and> (\<exists>s'. well_formed t' s' \<and> inorder s' = [0, 1, 2] \<and> inorder_values t' s' = [10, 20, 30]))
   \<and> (\<exists>t'. rightRotate (Some 1) example_tree = Some t' \<and> root t' = Some 0
         \<and> fld right (Some 0) t' = Some (Some 1)
         \<and> (\<exists>s'. well_formed t' s' \<and> inorder s' = [0, 1, 2] \<and> inorder_values t' s' = [10, 20, 30]))"
proof -
  have h1: "well_formed example_tree example_shape"
    by (simp add: well_formed_def example_tree_def example_shape_def)
  have h2: "1 \<in> set (inorder example_shape)"
    by (simp add: example_shape_def)
  have h3: "mem example_tree 1 = Some \<lparr>parent = None, right = Some 2, left = Some 0, data = 20, color = BLACK\<rparr>"
    by (simp add: example_tree_def)
  have r: "root example_tree = Some 1" by (simp add: example_tree_def)
  have i: "inorder example_shape = [0, 1, 2]" by (simp add: example_shape_def)
  have v: "inorder_values example_tree example_shape = [10, 20, 30]"
    by (simp add: inorder_values_def example_tree_def example_shape_def map_filter_simps)
  from C8_rotations [OF h1 h2 h3] r i v h1 h2 h3 show ?thesis
    by simp blast
qed

subsection \<open>Insertion into a linked tree\<close>

lemma sub_at_sub_at:
  "distinct (inorder s) \<Longrightarrow> c \<in> set (inorder (sub_at x s)) \<Longrightarrow> sub_at c (sub_at x s) = sub_at c s"
proof (induction s)
  case Tip
  then show ?case by simp
next
  case (Nd l a r)
  show ?case
  proof (cases "a = x")
    case True
    then show ?thesis by simp
  next
    case False
    note ax = this
    show ?thesis
    proof (cases "x \<in> set (inorder l)")
      case True
      with ax Nd.prems have c: "c \<in> set (inorder (sub_at x l))" by simp
      with sub_at_subset [of x l] have cl: "c \<in> set (inorder l)" by auto
      with Nd.prems(1) have "c \<noteq> a" by auto
      with Nd True ax c cl show ?thesis by simp
    next
      case False
      with ax Nd.prems have c: "c \<in> set (inorder (sub_at x r))" by simp
      with sub_at_subset [of x r] have cr: "c \<in> set (inorder r)" by auto
      with Nd.prems(1) have "c \<noteq> a" "c \<notin> set (inorder l)" by auto
      with Nd False ax c cr show ?thesis by simp
    qed
  qed
qed

text \<open>The subtree below a node, seen from its parent.\<close>

lemma sub_at_parent:
  assumes "is_tree h par q s" and "distinct (inorder s)" and "x \<in> set (inorder s)"
    and "q \<noteq> Some x" and "h x = Some xn" and "parent xn = Some p"
  shows "\<exists>pn l r. h p = Some pn \<and> p \<in> set (inorder s) \<and> sub_at p s = Nd l p r \<and>
     is_tree h (Some p) (left pn) l \<and> is_tree h (Some p) (right pn) r \<and>
     ((left pn = Some x \<and> l = sub_at x s \<and> right pn \<noteq> Some x) \<or>
      (right pn = Some x \<and> r = sub_at x s \<and> left pn \<noteq> Some x))"
proof -
  from is_tree_parent [OF assms(1,3,4,5)] assms(6) obtain pn where
    pn: "h p = Some pn" "p \<in> set (inorder s)" "left pn = Some x \<or> right pn = Some x"
    by auto
  from sub_at_root [OF pn(2)] obtain l r where sub: "sub_at p s = Nd l p r" by auto
  from is_tree_sub_at [OF assms(1) pn(2,1)] sub pn(1)
  have t: "is_tree h (Some p) (left pn) l" "is_tree h (Some p) (right pn) r" by auto
  have d: "distinct (inorder (Nd l p r))"
    using sub_at_distinct [OF assms(2), of p] sub by simp
  from pn(3) show ?thesis
  proof
    assume lx: "left pn = Some x"
    with t(1) obtain l1 l2 where l: "l = Nd l1 x l2" by (cases l) auto
    then have "x \<in> set (inorder (sub_at p s))" using sub by simp
    from sub_at_sub_at [OF assms(2) this] sub l d have "sub_at x s = l" by auto
    moreover have "right pn \<noteq> Some x"
      by (rule is_tree_one_child [OF assms(1,2) pn(2,1) lx])
    ultimately show ?thesis using pn sub t lx by auto
  next
    assume rx: "right pn = Some x"
    with t(2) obtain r1 r2 where r: "r = Nd r1 x r2" by (cases r) auto
    then have "x \<in> set (inorder (sub_at p s))" using sub by simp
    from sub_at_sub_at [OF assms(2) this] sub r d have "sub_at x s = r" by auto
    moreover have "left pn \<noteq> Some x"
      using is_tree_one_child [OF assms(1,2) pn(2,1)] rx by auto
    ultimately show ?thesis using pn sub t rx by auto
  qed
qed

lemma well_formed_links:
  "well_formed t s \<Longrightarrow> (\<And>a. map_option links (mem t' a) = map_option links (mem t a)) \<Longrightarrow>
   root t' = root t \<Longrightarrow> well_formed t' s"
  using is_tree_cong [of s "mem t'" "mem t" None "root t"]
  by (simp add: well_formed_def)

lemma well_formed_root:
  "well_formed t s \<Longrightarrow> mem t x = Some xn \<Longrightarrow> x \<in> set (inorder s) \<Longrightarrow>
   (parent xn = None \<longleftrightarrow> root t = Some x)"
proof -
  assume a: "well_formed t s" "mem t x = Some xn" "x \<in> set (inorder s)"
  then have tr: "is_tree (mem t) None (root t) s" by (simp add: well_formed_def)
  show ?thesis
  proof (cases "root t = Some x")
    case True
    with tr a(2) show ?thesis by (cases s) auto
  next
    case False
    from is_tree_parent [OF tr a(3) False a(2)] False show ?thesis by auto
  qed
qed

text \<open>The three ways through one round of the insertion fix-up, parent on the right.\<close>

lemma fixInsertion_body_right_red_uncle:
  assumes "mem t k = Some kn" "parent kn = Some p"
    and "mem t p = Some pn" "parent pn = Some g"
    and "mem t g = Some gn" "right gn = Some p"
    and "left gn = Some u" "mem t u = Some un" "color un = RED"
    and "k \<noteq> p" "k \<noteq> g" "k \<noteq> u" "p \<noteq> g" "p \<noteq> u" "g \<noteq> u"
  shows "fixInsertion_body (Some k) t =
    Some (Some g, t\<lparr>mem := (mem t)(u \<mapsto> un\<lparr>color := BLACK\<rparr>, p \<mapsto> pn\<lparr>color := BLACK\<rparr>,
                                   g \<mapsto> gn\<lparr>color := RED\<rparr>)\<rparr>)"
  using assms by (simp add: fixInsertion_body_def store_Some)

lemma fixInsertion_body_right_outer:
  assumes "mem t k = Some kn" "parent kn = Some p"
    and "mem t p = Some pn" "parent pn = Some g"
    and "mem t g = Some gn" "right gn = Some p"
    and "left gn = None \<or> (\<exists>u un. left gn = Some u \<and> mem t u = Some un \<and> color un \<noteq> RED)"
    and "left pn \<noteq> Some k"
    and "k \<noteq> p" "k \<noteq> g" "p \<noteq> g"
  shows "fixInsertion_body (Some k) t =
    leftRotate (Some g) (t\<lparr>mem := (mem t)(p \<mapsto> pn\<lparr>color := BLACK\<rparr>, g \<mapsto> gn\<lparr>color := RED\<rparr>)\<rparr>)
      \<bind> (\<lambda>t'. Some (Some k, t'))"
proof -
  have "Some k \<noteq> left pn" using assms(8) by auto
  with assms show ?thesis
    by (auto simp: fixInsertion_body_def store_Some)
qed

lemma fixInsertion_body_right_inner:
  assumes "mem t k = Some kn" "parent kn = Some p"
    and "mem t p = Some pn" "parent pn = Some g"
    and "mem t g = Some gn" "right gn = Some p"
    and "left gn = None \<or> (\<exists>u un. left gn = Some u \<and> mem t u = Some un \<and> color un \<noteq> RED)"
    and "left pn = Some k"
    and "rightRotate (Some p) t = Some t1"
    and "mem t1 p = Some pn1" "parent pn1 = Some k"
    and "mem t1 k = Some kn1" "parent kn1 = Some g"
    and "mem t1 g = Some gn1"
    and "k \<noteq> p" "k \<noteq> g" "p \<noteq> g"
  shows "fixInsertion_body (Some k) t =
    leftRotate (Some g) (t1\<lparr>mem := (mem t1)(k \<mapsto> kn1\<lparr>color := BLACK\<rparr>, g \<mapsto> gn1\<lparr>color := RED\<rparr>)\<rparr>)
      \<bind> (\<lambda>t'. Some (Some p, t'))"
  using assms
  by (auto simp: fixInsertion_body_def store_Some)

lemma leftRotate_full:
  assumes wf: "well_formed t s" and x: "x \<in> set (inorder s)"
    and hx: "mem t x = Some xn" and xr: "right xn = Some y"
  shows "\<exists>t' yn. mem t y = Some yn \<and> leftRotate (Some x) t = Some t'
     \<and> well_formed t' (rotate_left_at x s)
     \<and> brk t' = brk t
     \<and> root t' = (if root t = Some x then Some y else root t)
     \<and> mem t' y = Some (yn\<lparr>left := Some x, parent := parent xn\<rparr>)
     \<and> (\<forall>a. map_option color (mem t' a) = map_option color (mem t a))
     \<and> (\<forall>a. map_option data (mem t' a) = map_option data (mem t a))"
proof -
  from leftRotate_correct [OF assms] obtain t' yn where
    a: "mem t y = Some yn" "leftRotate (Some x) t = Some t'"
      "well_formed t' (rotate_left_at x s)" "brk t' = brk t"
      "root t' = (if root t = Some x then Some y else root t)"
      "mem t' y = Some (yn\<lparr>left := Some x, parent := parent xn\<rparr>)"
    by blast
  from leftRotate_claim [OF assms] obtain t'' where
    b: "leftRotate (Some x) t = Some t''"
      "\<forall>a. map_option color (mem t'' a) = map_option color (mem t a)"
      "\<forall>a. map_option data (mem t'' a) = map_option data (mem t a)"
    by blast
  from a(2) b(1) have "t'' = t'" by simp
  with a b show ?thesis by blast
qed

lemma rightRotate_full:
  assumes wf: "well_formed t s" and x: "x \<in> set (inorder s)"
    and hx: "mem t x = Some xn" and xr: "left xn = Some y"
  shows "\<exists>t' yn. mem t y = Some yn \<and> rightRotate (Some x) t = Some t'
     \<and> well_formed t' (rotate_right_at x s)
     \<and> brk t' = brk t
     \<and> root t' = (if root t = Some x then Some y else root t)
     \<and> mem t' y = Some (yn\<lparr>right := Some x, parent := parent xn\<rparr>)
     \<and> (\<forall>a. map_option color (mem t' a) = map_option color (mem t a))
     \<and> (\<forall>a. map_option data (mem t' a) = map_option data (mem t a))"
proof -
  from rightRotate_correct [OF assms] obtain t' yn where
    a: "mem t y = Some yn" "rightRotate (Some x) t = Some t'"
      "well_formed t' (rotate_right_at x s)" "brk t' = brk t"
      "root t' = (if root t = Some x then Some y else root t)"
      "mem t' y = Some (yn\<lparr>right := Some x, parent := parent xn\<rparr>)"
    by blast
  from rightRotate_claim [OF assms] obtain t'' where
    b: "rightRotate (Some x) t = Some t''"
      "\<forall>a. map_option color (mem t'' a) = map_option color (mem t a)"
      "\<forall>a. map_option data (mem t'' a) = map_option data (mem t a)"
    by blast
  from a(2) b(1) have "t'' = t'" by simp
  with a b show ?thesis by blast
qed

text \<open>In a well-formed tree the parent link of a child points back.\<close>

lemma well_formed_child_parent:
  assumes "well_formed t s" and "x \<in> set (inorder s)" and "mem t x = Some xn"
    and "left xn = Some c \<or> right xn = Some c"
  shows "\<exists>cn. mem t c = Some cn \<and> parent cn = Some x \<and> c \<in> set (inorder s) \<and> root t \<noteq> Some c"
proof -
  from assms(1) have tr: "is_tree (mem t) None (root t) s" by (simp add: well_formed_def)
  from sub_at_root [OF assms(2)] obtain l r where sub: "sub_at x s = Nd l x r" by auto
  from is_tree_sub_at [OF tr assms(2,3)] sub assms(3)
  have t: "is_tree (mem t) (Some x) (left xn) l" "is_tree (mem t) (Some x) (right xn) r" by auto
  have "\<exists>cn. mem t c = Some cn \<and> parent cn = Some x \<and> c \<in> set (inorder (sub_at x s))"
    using assms(4)
  proof
    assume "left xn = Some c"
    with t(1) sub show ?thesis by (cases l) auto
  next
    assume "right xn = Some c"
    with t(2) sub show ?thesis by (cases r) auto
  qed
  then obtain cn where cn: "mem t c = Some cn" "parent cn = Some x" "c \<in> set (inorder s)"
    using sub_at_subset [of x s] by auto
  with well_formed_root [OF assms(1) cn(1,3)] show ?thesis by auto
qed

text \<open>A node, its parent and its grandparent in a well-formed tree.\<close>

lemma grandparent_config:
  assumes wf: "well_formed t s" and k: "k \<in> set (inorder s)"
    and hk: "mem t k = Some kn" "parent kn = Some p"
    and hp: "mem t p = Some pn" "parent pn = Some g"
  shows "\<exists>gn. mem t g = Some gn \<and> g \<in> set (inorder s) \<and> p \<in> set (inorder s) \<and>
     (left gn = Some p \<and> right gn \<noteq> Some p \<or> right gn = Some p \<and> left gn \<noteq> Some p) \<and>
     (left pn = Some k \<and> right pn \<noteq> Some k \<or> right pn = Some k \<and> left pn \<noteq> Some k) \<and>
     k \<noteq> p \<and> k \<noteq> g \<and> p \<noteq> g \<and> root t \<noteq> Some k \<and> root t \<noteq> Some p \<and>
     length (inorder (sub_at k s)) < length (inorder (sub_at g s)) \<and>
     (\<forall>u. (left gn = Some u \<or> right gn = Some u) \<and> u \<noteq> p \<longrightarrow>
        u \<noteq> k \<and> u \<noteq> g \<and> root t \<noteq> Some u \<and> (\<exists>un. mem t u = Some un))"
proof -
  from wf have tr: "is_tree (mem t) None (root t) s" and d: "distinct (inorder s)"
    by (auto simp: well_formed_def)
  have rk: "root t \<noteq> Some k"
    using well_formed_root [OF wf hk(1) k] hk(2) by auto
  from sub_at_parent [OF tr d k rk hk] obtain pn' pl pr where
    p: "mem t p = Some pn'" "p \<in> set (inorder s)" "sub_at p s = Nd pl p pr"
      "(left pn' = Some k \<and> pl = sub_at k s \<and> right pn' \<noteq> Some k) \<or>
       (right pn' = Some k \<and> pr = sub_at k s \<and> left pn' \<noteq> Some k)"
    by blast
  from p(1) hp(1) have [simp]: "pn' = pn" by simp
  have rp: "root t \<noteq> Some p"
    using well_formed_root [OF wf hp(1) p(2)] hp(2) by auto
  from sub_at_parent [OF tr d p(2) rp hp] obtain gn gl gr where
    g: "mem t g = Some gn" "g \<in> set (inorder s)" "sub_at g s = Nd gl g gr"
      "is_tree (mem t) (Some g) (left gn) gl" "is_tree (mem t) (Some g) (right gn) gr"
      "(left gn = Some p \<and> gl = sub_at p s \<and> right gn \<noteq> Some p) \<or>
       (right gn = Some p \<and> gr = sub_at p s \<and> left gn \<noteq> Some p)"
    by blast
  have dg: "distinct (inorder (Nd gl g gr))"
    using sub_at_distinct [OF d, of g] g(3) by simp
  from sub_at_root [OF k] obtain kl kr where ks: "sub_at k s = Nd kl k kr" by auto
  have kin: "k \<in> set (inorder pl) \<union> set (inorder pr)"
    using p(4) ks by (metis UnI1 UnI2 inorder.simps(2) in_set_conv_decomp)
  have len_kp: "length (inorder (sub_at k s)) < length (inorder (sub_at p s))"
    using p(3,4) by auto
  have len_pg: "length (inorder (sub_at p s)) < length (inorder (sub_at g s))"
    using g(3,6) by auto
  have pin: "set (inorder (sub_at p s)) \<subseteq> set (inorder gl) \<union> set (inorder gr)"
    using g(6) by auto
  have kp: "k \<noteq> p" using kin sub_at_distinct [OF d, of p] p(3) by auto
  have pg: "p \<noteq> g" using pin p(3) dg by auto
  have kg: "k \<noteq> g" using pin p(3) kin dg by auto
  have uncle: "\<forall>u. (left gn = Some u \<or> right gn = Some u) \<and> u \<noteq> p \<longrightarrow>
        u \<noteq> k \<and> u \<noteq> g \<and> root t \<noteq> Some u \<and> (\<exists>un. mem t u = Some un)"
  proof (intro allI impI)
    fix u assume u: "(left gn = Some u \<or> right gn = Some u) \<and> u \<noteq> p"
    then have c: "left gn = Some u \<or> right gn = Some u" by simp
    from well_formed_child_parent [OF wf g(2,1) c] obtain un where
      un: "mem t u = Some un" "parent un = Some g" "root t \<noteq> Some u" by auto
    have "u \<noteq> g"
    proof
      assume "u = g"
      with c g(4,5) have "g \<in> set (inorder gl) \<union> set (inorder gr)"
        by (auto dest: is_tree_root_in)
      with dg show False by auto
    qed
    moreover have "u \<noteq> k" using un hk kp pg by auto
    ultimately show "u \<noteq> k \<and> u \<noteq> g \<and> root t \<noteq> Some u \<and> (\<exists>un. mem t u = Some un)"
      using un by auto
  qed
  from g(6) have gside: "left gn = Some p \<and> right gn \<noteq> Some p \<or> right gn = Some p \<and> left gn \<noteq> Some p"
    by auto
  from p(4) have pside: "left pn = Some k \<and> right pn \<noteq> Some k \<or> right pn = Some k \<and> left pn \<noteq> Some k"
    by auto
  from g(1,2) p(2) gside pside kp kg pg rk rp len_kp len_pg uncle show ?thesis
    by (intro exI [of _ gn]) simp
qed

lemma root_black_cong:
  "root_black t \<Longrightarrow> root t' = root t \<Longrightarrow>
   (\<And>r. root t = Some r \<Longrightarrow> map_option color (mem t' r) = map_option color (mem t r)) \<Longrightarrow>
   root_black t'"
  by (auto simp: root_black_def split: option.splits)

subsection \<open>Colours through the insertion fix-up\<close>

lemma e_color_not_black [simp]: "(c \<noteq> BLACK) = (c = RED)"
  by (cases c) auto

lemma bheight_cong:
  "(\<And>a. a \<in> set (inorder s) \<Longrightarrow> c' a = c a) \<Longrightarrow> bheight c' s = bheight c s"
  by (induction s) auto

lemma balanced_cong:
  "(\<And>a. a \<in> set (inorder s) \<Longrightarrow> c' a = c a) \<Longrightarrow> balanced c' s = balanced c s"
  by (induction s) (auto simp: bheight_cong [of _ c' c])

lemma rootcol_cong:
  "(\<And>a. a \<in> set (inorder s) \<Longrightarrow> c' a = c a) \<Longrightarrow> rootcol c' s = rootcol c s"
  by (cases s) auto

lemma is_root_in: "is_root (Some k) s \<Longrightarrow> k \<in> set (inorder s)"
  by (cases s) auto

lemma no_red_red_cong:
  assumes "\<And>a. a \<in> set (inorder s) \<Longrightarrow> c' a = c a"
    and "\<And>x. k = Some x \<Longrightarrow> x \<notin> set (inorder s)"
    and "\<And>x. k' = Some x \<Longrightarrow> x \<notin> set (inorder s)"
  shows "no_red_red k' c' s = no_red_red k c s"
  using assms
proof (induction s)
  case Tip
  then show ?case by simp
next
  case (Nd l a r)
  have l: "no_red_red k' c' l = no_red_red k c l"
    using Nd.prems by (intro Nd.IH(1)) auto
  have r: "no_red_red k' c' r = no_red_red k c r"
    using Nd.prems by (intro Nd.IH(2)) auto
  have rl: "rootcol c' l = rootcol c l" "rootcol c' r = rootcol c r"
    using Nd.prems(1) by (auto intro!: rootcol_cong)
  have nk: "\<not> is_root k l" "\<not> is_root k r" "\<not> is_root k' l" "\<not> is_root k' r"
    using Nd.prems(2,3) by (cases l; cases r; auto)+
  show ?case using l r rl nk Nd.prems(1) by simp
qed

lemma is_root_None [simp]: "\<not> is_root None s"
  by (cases s) auto

lemma sub_at_below_root:
  "distinct (inorder (Nd l b r)) \<Longrightarrow> b \<noteq> x \<Longrightarrow> b \<notin> set (inorder (sub_at x (Nd l b r)))"
  using sub_at_subset [of x l] sub_at_subset [of x r] by auto

lemma subst_at_root:
  "s = Nd l b r \<Longrightarrow> b \<noteq> x \<Longrightarrow> \<exists>l' r'. subst_at x u s = Nd l' b r'"
  by auto

text \<open>Replacing a subtree by one of the same black height keeps the invariants around it.\<close>

lemma inv_subst_at:
  assumes "distinct (inorder v)" and "x \<in> set (inorder v)"
    and "\<And>a. a \<in> set (inorder v) \<Longrightarrow> a \<notin> set (inorder (sub_at x v)) \<Longrightarrow> c' a = c a"
    and "balanced c v" and "no_red_red k c v"
    and k: "\<And>y. k = Some y \<Longrightarrow> y \<in> set (inorder (sub_at x v))"
    and k': "\<And>y. k' = Some y \<Longrightarrow> y \<in> set (inorder u)"
    and sameset: "set (inorder u) = set (inorder (sub_at x v))"
    and balu: "balanced c' u" and bhu: "bheight c' u = bheight c (sub_at x v)"
    and nrru: "no_red_red k' c' u"
    and rootu: "rootcol c' u = BLACK \<or> is_root k' u"
  shows "balanced c' (subst_at x u v) \<and> bheight c' (subst_at x u v) = bheight c v \<and>
         no_red_red k' c' (subst_at x u v)"
  using assms(1-6) sameset bhu
proof (induction v)
  case Tip
  then show ?case by simp
next
  case (Nd l a r)
  show ?case
  proof (cases "a = x")
    case True
    with Nd.prems balu nrru show ?thesis by simp
  next
    case False
    note ax = this
    from Nd.prems(1) have dl: "distinct (inorder l)" and dr: "distinct (inorder r)"
      and al: "a \<notin> set (inorder l)" and ar: "a \<notin> set (inorder r)"
      and lr: "set (inorder l) \<inter> set (inorder r) = {}" by auto
    from Nd.prems(4) have bl: "balanced c l" and br: "balanced c r"
      and bh: "bheight c l = bheight c r" by auto
    from Nd.prems(5) have nl: "no_red_red k c l" and nr: "no_red_red k c r"
      and na: "c a = RED \<longrightarrow> (rootcol c l = BLACK \<or> is_root k l) \<and> (rootcol c r = BLACK \<or> is_root k r)"
      by auto
    show ?thesis
    proof (cases "x \<in> set (inorder l)")
      case True
      then have sub: "sub_at x (Nd l a r) = sub_at x l" using ax by simp
      have subl: "set (inorder (sub_at x l)) \<subseteq> set (inorder l)" by (rule sub_at_subset)
      have ca: "c' a = c a"
        using Nd.prems(3) [of a] sub subl al by auto
      have cr: "\<And>b. b \<in> set (inorder r) \<Longrightarrow> c' b = c b"
        using Nd.prems(3) sub subl lr by auto
      have kin: "\<And>y. k = Some y \<Longrightarrow> y \<in> set (inorder (sub_at x l))"
        using Nd.prems(6) sub by simp
      have k'in: "\<And>y. k' = Some y \<Longrightarrow> y \<in> set (inorder (sub_at x l))"
        using k' Nd.prems(7) sub by simp
      have IH: "balanced c' (subst_at x u l) \<and> bheight c' (subst_at x u l) = bheight c l \<and>
         no_red_red k' c' (subst_at x u l)"
        using Nd.prems(3,7,8) sub kin
        by (intro Nd.IH(1) [OF dl True _ bl nl]) auto
      have r1: "balanced c' r" using br cr balanced_cong [of r c' c] by simp
      have r2: "bheight c' r = bheight c r" using cr by (intro bheight_cong) auto
      have r3: "no_red_red k' c' r"
        using nr no_red_red_cong [of r c' c k k'] cr kin k'in subl lr by blast
      have r4: "rootcol c' r = rootcol c r" using cr by (intro rootcol_cong) auto
      have nkr: "\<not> is_root k r"
        using kin subl lr by (cases k) (auto dest: is_root_in)
      have lroot: "c' a = RED \<longrightarrow> rootcol c' (subst_at x u l) = BLACK \<or> is_root k' (subst_at x u l)"
      proof
        assume red: "c' a = RED"
        from True obtain ll b lr' where l: "l = Nd ll b lr'" by (cases l) auto
        show "rootcol c' (subst_at x u l) = BLACK \<or> is_root k' (subst_at x u l)"
        proof (cases "b = x")
          case True
          with l rootu show ?thesis by simp
        next
          case False
          from sub_at_below_root [of ll b lr' x] dl l False
          have bo: "b \<notin> set (inorder (sub_at x l))" by simp
          then have "c' b = c b" using Nd.prems(3) [of b] sub l by simp
          moreover have "\<not> is_root k l" using kin bo l by (cases k) auto
          ultimately show ?thesis using na red ca l False by auto
        qed
      qed
      show ?thesis
        using IH r1 r2 r3 r4 ca bh na nkr lroot ax True by auto
    next
      case False
      with Nd.prems(2) ax have xr: "x \<in> set (inorder r)" by auto
      have sub: "sub_at x (Nd l a r) = sub_at x r" using ax False by simp
      have subr: "set (inorder (sub_at x r)) \<subseteq> set (inorder r)" by (rule sub_at_subset)
      have ca: "c' a = c a"
        using Nd.prems(3) [of a] sub subr ar by auto
      have cl: "\<And>b. b \<in> set (inorder l) \<Longrightarrow> c' b = c b"
        using Nd.prems(3) sub subr lr by auto
      have kin: "\<And>y. k = Some y \<Longrightarrow> y \<in> set (inorder (sub_at x r))"
        using Nd.prems(6) sub by simp
      have k'in: "\<And>y. k' = Some y \<Longrightarrow> y \<in> set (inorder (sub_at x r))"
        using k' Nd.prems(7) sub by simp
      have IH: "balanced c' (subst_at x u r) \<and> bheight c' (subst_at x u r) = bheight c r \<and>
         no_red_red k' c' (subst_at x u r)"
        using Nd.prems(3,7,8) sub kin
        by (intro Nd.IH(2) [OF dr xr _ br nr]) auto
      have l1: "balanced c' l" using bl cl balanced_cong [of l c' c] by simp
      have l2: "bheight c' l = bheight c l" using cl by (intro bheight_cong) auto
      have l3: "no_red_red k' c' l"
        using nl no_red_red_cong [of l c' c k k'] cl kin k'in subr lr by blast
      have l4: "rootcol c' l = rootcol c l" using cl by (intro rootcol_cong) auto
      have nkl: "\<not> is_root k l"
        using kin subr lr by (cases k) (auto dest: is_root_in)
      have rroot: "c' a = RED \<longrightarrow> rootcol c' (subst_at x u r) = BLACK \<or> is_root k' (subst_at x u r)"
      proof
        assume red: "c' a = RED"
        from xr obtain rl b rr where r: "r = Nd rl b rr" by (cases r) auto
        show "rootcol c' (subst_at x u r) = BLACK \<or> is_root k' (subst_at x u r)"
        proof (cases "b = x")
          case True
          with r rootu show ?thesis by simp
        next
          case False
          from sub_at_below_root [of rl b rr x] dr r False
          have bo: "b \<notin> set (inorder (sub_at x r))" by simp
          then have "c' b = c b" using Nd.prems(3) [of b] sub r by simp
          moreover have "\<not> is_root k r" using kin bo r by (cases k) auto
          ultimately show ?thesis using na red ca r False by auto
        qed
      qed
      show ?thesis
        using IH l1 l2 l3 l4 ca bh na nkl rroot ax False by auto
    qed
  qed
qed

lemma col_eqI:
  "(\<And>a. map_option color (h' a) = map_option color (h a)) \<Longrightarrow> col h' = col h"
proof
  fix a assume "\<And>a. map_option color (h' a) = map_option color (h a)"
  then have "map_option color (h' a) = map_option color (h a)" .
  then show "col h' a = col h a"
    by (cases "h a"; cases "h' a") (auto simp: col_def)
qed

lemma col_upd [simp]: "col (h(a \<mapsto> n)) = (col h)(a := color n)"
  by (rule ext) (simp add: col_def)

lemma e_color_not_red [simp]: "(c \<noteq> RED) = (c = BLACK)"
  by (cases c) simp_all

lemma col_Some: "h a = Some n \<Longrightarrow> col h a = color n"
  by (simp add: col_def)

lemma insfix_step_red:
  "mem t k = Some kn \<Longrightarrow> parent kn = Some p \<Longrightarrow> mem t p = Some pn \<Longrightarrow> parent pn = Some g \<Longrightarrow>
   mem t g = Some gn \<Longrightarrow>
   left gn = Some u \<and> right gn = Some p \<or> right gn = Some u \<and> left gn = Some p \<Longrightarrow>
   col (mem t) u = RED \<Longrightarrow>
   col (mem t') = (col (mem t))(u := BLACK, p := BLACK, g := RED) \<Longrightarrow>
   insfix_step t s k g t' s"
  unfolding insfix_step_def
  by blast

lemma insfix_step_right_outer:
  "mem t k = Some kn \<Longrightarrow> parent kn = Some p \<Longrightarrow> mem t p = Some pn \<Longrightarrow> parent pn = Some g \<Longrightarrow>
   mem t g = Some gn \<Longrightarrow> right gn = Some p \<Longrightarrow>
   \<forall>u. left gn = Some u \<longrightarrow> col (mem t) u = BLACK \<Longrightarrow> right pn = Some k \<Longrightarrow>
   col (mem t') = (col (mem t))(p := BLACK, g := RED) \<Longrightarrow>
   insfix_step t s k k t' (rotate_left_at g s)"
  unfolding insfix_step_def
  by blast

lemma insfix_step_right_inner:
  "mem t k = Some kn \<Longrightarrow> parent kn = Some p \<Longrightarrow> mem t p = Some pn \<Longrightarrow> parent pn = Some g \<Longrightarrow>
   mem t g = Some gn \<Longrightarrow> right gn = Some p \<Longrightarrow>
   \<forall>u. left gn = Some u \<longrightarrow> col (mem t) u = BLACK \<Longrightarrow> left pn = Some k \<Longrightarrow>
   col (mem t') = (col (mem t))(k := BLACK, g := RED) \<Longrightarrow>
   insfix_step t s k p t' (rotate_left_at g (rotate_right_at p s))"
  unfolding insfix_step_def
  by blast

lemma insfix_step_left_outer:
  "mem t k = Some kn \<Longrightarrow> parent kn = Some p \<Longrightarrow> mem t p = Some pn \<Longrightarrow> parent pn = Some g \<Longrightarrow>
   mem t g = Some gn \<Longrightarrow> left gn = Some p \<Longrightarrow>
   \<forall>u. right gn = Some u \<longrightarrow> col (mem t) u = BLACK \<Longrightarrow> left pn = Some k \<Longrightarrow>
   col (mem t') = (col (mem t))(p := BLACK, g := RED) \<Longrightarrow>
   insfix_step t s k k t' (rotate_right_at g s)"
  unfolding insfix_step_def
  by blast

lemma insfix_step_left_inner:
  "mem t k = Some kn \<Longrightarrow> parent kn = Some p \<Longrightarrow> mem t p = Some pn \<Longrightarrow> parent pn = Some g \<Longrightarrow>
   mem t g = Some gn \<Longrightarrow> left gn = Some p \<Longrightarrow>
   \<forall>u. right gn = Some u \<longrightarrow> col (mem t) u = BLACK \<Longrightarrow> right pn = Some k \<Longrightarrow>
   col (mem t') = (col (mem t))(k := BLACK, g := RED) \<Longrightarrow>
   insfix_step t s k p t' (rotate_right_at g (rotate_left_at p s))"
  unfolding insfix_step_def
  by blast

lemma fixInsertion_body_right:
  assumes wf: "well_formed t s" and rb: "root_black t" and k: "k \<in> set (inorder s)"
    and hk: "mem t k = Some kn" "parent kn = Some p"
    and hp: "mem t p = Some pn" "parent pn = Some g"
    and hg: "mem t g = Some gn" "right gn = Some p"
  shows "\<exists>k' t'. fixInsertion_body (Some k) t = Some (k', t') \<and> insfix_post t s k k' t'"
proof -
  from grandparent_config [OF wf k hk hp] hg obtain
    gin: "g \<in> set (inorder s)" and pin: "p \<in> set (inorder s)"
    and gl: "left gn \<noteq> Some p"
    and pside: "left pn = Some k \<and> right pn \<noteq> Some k \<or> right pn = Some k \<and> left pn \<noteq> Some k"
    and ne: "k \<noteq> p" "k \<noteq> g" "p \<noteq> g"
    and rt: "root t \<noteq> Some k" "root t \<noteq> Some p"
    and len: "length (inorder (sub_at k s)) < length (inorder (sub_at g s))"
    and uncle: "\<forall>u. (left gn = Some u \<or> right gn = Some u) \<and> u \<noteq> p \<longrightarrow>
        u \<noteq> k \<and> u \<noteq> g \<and> root t \<noteq> Some u \<and> (\<exists>un. mem t u = Some un)"
    by auto
  have un: "left gn = None \<or> (\<exists>u un. left gn = Some u \<and> mem t u = Some un \<and> u \<noteq> p \<and> u \<noteq> k
      \<and> u \<noteq> g \<and> root t \<noteq> Some u)"
  proof (cases "left gn")
    case None
    then show ?thesis by simp
  next
    case (Some u)
    with gl have "u \<noteq> p" by auto
    with Some uncle show ?thesis by auto
  qed
  consider (red) u un where "left gn = Some u" "mem t u = Some un" "color un = RED"
      "u \<noteq> p" "u \<noteq> k" "u \<noteq> g" "root t \<noteq> Some u"
    | (black) "left gn = None \<or> (\<exists>u un. left gn = Some u \<and> mem t u = Some un \<and> color un \<noteq> RED)"
    using un by blast
  then show ?thesis
  proof cases
    case red
    let ?t' = "t\<lparr>mem := (mem t)(u \<mapsto> un\<lparr>color := BLACK\<rparr>, p \<mapsto> pn\<lparr>color := BLACK\<rparr>,
                                   g \<mapsto> gn\<lparr>color := RED\<rparr>)\<rparr>"
    have body: "fixInsertion_body (Some k) t = Some (Some g, ?t')"
      using hk hp hg red ne by (intro fixInsertion_body_right_red_uncle) auto
    have lk: "\<And>a. map_option links (mem ?t' a) = map_option links (mem t a)"
      using hp hg red by (simp add: links_def)
    have wf': "well_formed ?t' s"
      by (rule well_formed_links [OF wf lk]) simp
    have dt: "\<forall>a. map_option data (mem ?t' a) = map_option data (mem t a)"
      using hp hg red by simp
    have rbg: "root ?t' \<noteq> Some g \<longrightarrow> root_black ?t'"
    proof
      assume "root ?t' \<noteq> Some g"
      then have rg: "root t \<noteq> Some g" by simp
      show "root_black ?t'"
      proof (rule root_black_cong [OF rb])
        show "root ?t' = root t" by simp
        fix r assume "root t = Some r"
        with rg rt red(7) have "r \<noteq> g" "r \<noteq> p" "r \<noteq> u" by auto
        then show "map_option color (mem ?t' r) = map_option color (mem t r)" by simp
      qed
    qed
    have cu: "col (mem t) u = RED" using red by (simp add: col_Some)
    have cc: "col (mem ?t') = (col (mem t))(u := BLACK, p := BLACK, g := RED)"
      by simp
    have sides: "left gn = Some u \<and> right gn = Some p \<or> right gn = Some u \<and> left gn = Some p"
      using hg(2) red(1) by simp
    have step: "insfix_step t s k g ?t' s"
      by (rule insfix_step_red [OF hk hp hg(1) sides cu cc])
    from wf' dt gin len step rbg have "insfix_post t s k (Some g) ?t'"
      unfolding insfix_post_def
      by (intro exI [of _ s] exI [of _ g]) simp
    with body show ?thesis by blast
  next
    case black
    show ?thesis
    proof (cases "left pn = Some k")
      case False
      with pside have pr: "right pn = Some k" by auto
      let ?t2 = "t\<lparr>mem := (mem t)(p \<mapsto> pn\<lparr>color := BLACK\<rparr>, g \<mapsto> gn\<lparr>color := RED\<rparr>)\<rparr>"
      have body: "fixInsertion_body (Some k) t = leftRotate (Some g) ?t2 \<bind> (\<lambda>t'. Some (Some k, t'))"
        using hk hp hg black False ne by (intro fixInsertion_body_right_outer) auto
      have lk: "\<And>a. map_option links (mem ?t2 a) = map_option links (mem t a)"
        using hp hg by (simp add: links_def)
      have wf2: "well_formed ?t2 s"
        by (rule well_formed_links [OF wf lk]) simp
      have hg2: "mem ?t2 g = Some (gn\<lparr>color := RED\<rparr>)" "right (gn\<lparr>color := RED\<rparr>) = Some p"
        using hg by simp_all
      from leftRotate_full [OF wf2 gin hg2] ne obtain t3 where
        t3: "leftRotate (Some g) ?t2 = Some t3" "well_formed t3 (rotate_left_at g s)"
          "brk t3 = brk t" "root t3 = (if root t = Some g then Some p else root t)"
          "mem t3 p = Some (pn\<lparr>color := BLACK, left := Some g, parent := parent gn\<rparr>)"
          "\<forall>a. map_option color (mem t3 a) = map_option color (mem ?t2 a)"
          "\<forall>a. map_option data (mem t3 a) = map_option data (mem ?t2 a)"
        by auto
      have pin3: "p \<in> set (inorder (rotate_left_at g s))" using pin by simp
      from well_formed_child_parent [OF t3(2) pin3 t3(5)] pr obtain kn3 where
        kn3: "mem t3 k = Some kn3" "parent kn3 = Some p" by auto
      have rb3: "root_black t3"
      proof (cases "root t = Some g")
        case True
        with t3(4,5) show ?thesis by (simp add: root_black_def)
      next
        case False
        with t3(4) have r3: "root t3 = root t" by simp
        show ?thesis
        proof (rule root_black_cong [OF rb r3])
          fix r assume "root t = Some r"
          with False rt have "r \<noteq> g" "r \<noteq> p" by auto
          with t3(6) show "map_option color (mem t3 r) = map_option color (mem t r)" by simp
        qed
      qed
      have dt: "\<forall>a. map_option data (mem t3 a) = map_option data (mem t a)"
        using t3(7) hp hg by simp
      have ub: "\<forall>u. left gn = Some u \<longrightarrow> col (mem t) u = BLACK"
        using black by (auto simp: col_Some)
      have "col (mem t3) = col (mem ?t2)"
        using t3(6) by (intro col_eqI) simp
      then have cc: "col (mem t3) = (col (mem t))(p := BLACK, g := RED)" by simp
      have step: "insfix_step t s k k t3 (rotate_left_at g s)"
        by (rule insfix_step_right_outer [OF hk hp hg ub pr cc])
      have "insfix_post t s k (Some k) t3"
        unfolding insfix_post_def
        using t3(2,3,5) dt k rb3 kn3 step
        by (intro exI [of _ "rotate_left_at g s"] exI [of _ k]) simp
      with body t3(1) show ?thesis by simp
    next
      case True
      from rightRotate_correct [OF wf pin hp(1) True] hk(1) hp(2) hg ne rt obtain t1 where
        t1: "rightRotate (Some p) t = Some t1" "well_formed t1 (rotate_right_at p s)"
          "brk t1 = brk t" "root t1 = root t"
          "mem t1 p = Some (pn\<lparr>left := right kn, parent := Some k\<rparr>)"
          "mem t1 k = Some (kn\<lparr>right := Some p, parent := Some g\<rparr>)"
          "mem t1 g = Some (gn\<lparr>right := Some k\<rparr>)"
        by auto
      from rightRotate_claim [OF wf pin hp(1) True] t1(1) have
        cl1: "\<forall>a. map_option color (mem t1 a) = map_option color (mem t a)"
          "\<forall>a. map_option data (mem t1 a) = map_option data (mem t a)"
        by auto
      let ?kn1 = "kn\<lparr>right := Some p, parent := Some g\<rparr>"
      let ?gn1 = "gn\<lparr>right := Some k\<rparr>"
      let ?t3 = "t1\<lparr>mem := (mem t1)(k \<mapsto> ?kn1\<lparr>color := BLACK\<rparr>, g \<mapsto> ?gn1\<lparr>color := RED\<rparr>)\<rparr>"
      have body: "fixInsertion_body (Some k) t = leftRotate (Some g) ?t3 \<bind> (\<lambda>t'. Some (Some p, t'))"
        using hk hp hg black True t1 ne
        by (intro fixInsertion_body_right_inner [where ?pn1.0 = "pn\<lparr>left := right kn, parent := Some k\<rparr>"]) auto
      have lk: "\<And>a. map_option links (mem ?t3 a) = map_option links (mem t1 a)"
        using t1 by (simp add: links_def)
      have wf3: "well_formed ?t3 (rotate_right_at p s)"
        by (rule well_formed_links [OF t1(2) lk]) simp
      have gin1: "g \<in> set (inorder (rotate_right_at p s))" using gin by simp
      have hg3: "mem ?t3 g = Some (?gn1\<lparr>color := RED\<rparr>)" "right (?gn1\<lparr>color := RED\<rparr>) = Some k"
        by simp_all
      from leftRotate_full [OF wf3 gin1 hg3] ne t1 obtain t4 where
        t4: "leftRotate (Some g) ?t3 = Some t4"
          "well_formed t4 (rotate_left_at g (rotate_right_at p s))"
          "brk t4 = brk t" "root t4 = (if root t = Some g then Some k else root t)"
          "mem t4 k = Some (?kn1\<lparr>color := BLACK, left := Some g, parent := parent gn\<rparr>)"
          "\<forall>a. map_option color (mem t4 a) = map_option color (mem ?t3 a)"
          "\<forall>a. map_option data (mem t4 a) = map_option data (mem ?t3 a)"
        by auto
      have kin4: "k \<in> set (inorder (rotate_left_at g (rotate_right_at p s)))" using k by simp
      from well_formed_child_parent [OF t4(2) kin4 t4(5), of p] obtain pn4 where
        pn4: "mem t4 p = Some pn4" "parent pn4 = Some k" by auto
      have rb4: "root_black t4"
      proof (cases "root t = Some g")
        case True
        with t4(4,5) show ?thesis by (simp add: root_black_def)
      next
        case False
        with t4(4) have r4: "root t4 = root t" by simp
        show ?thesis
        proof (rule root_black_cong [OF rb r4])
          fix r assume "root t = Some r"
          with False rt have "r \<noteq> g" "r \<noteq> k" by auto
          with t4(6) cl1(1) show "map_option color (mem t4 r) = map_option color (mem t r)" by simp
        qed
      qed
      have dt: "\<forall>a. map_option data (mem t4 a) = map_option data (mem t a)"
        using t4(7) cl1(2) t1(6,7) hk hg
        by (auto simp: map_option_case split: option.splits if_splits)
      have ub: "\<forall>u. left gn = Some u \<longrightarrow> col (mem t) u = BLACK"
        using black by (auto simp: col_Some)
      have c43: "col (mem t4) = col (mem ?t3)"
        using t4(6) by (intro col_eqI) simp
      have c1: "col (mem t1) = col (mem t)"
        using cl1(1) by (intro col_eqI) simp
      have cc: "col (mem t4) = (col (mem t))(k := BLACK, g := RED)"
        unfolding c43 using c1 by simp
      have step: "insfix_step t s k p t4 (rotate_left_at g (rotate_right_at p s))"
        by (rule insfix_step_right_inner [OF hk hp hg ub True cc])
      have "insfix_post t s k (Some p) t4"
        unfolding insfix_post_def
        using t4(2,3,5) dt pin rb4 pn4 step
        by (intro exI [of _ "rotate_left_at g (rotate_right_at p s)"] exI [of _ p]) simp
      with body t4(1) show ?thesis by simp
    qed
  qed
qed

text \<open>The same three ways, parent on the left.\<close>

lemma fixInsertion_body_left_red_uncle:
  assumes "mem t k = Some kn" "parent kn = Some p"
    and "mem t p = Some pn" "parent pn = Some g"
    and "mem t g = Some gn" "left gn = Some p" "Some p \<noteq> right gn"
    and "right gn = Some u" "mem t u = Some un" "color un = RED"
    and "k \<noteq> p" "k \<noteq> g" "k \<noteq> u" "p \<noteq> g" "p \<noteq> u" "g \<noteq> u"
  shows "fixInsertion_body (Some k) t =
    Some (Some g, t\<lparr>mem := (mem t)(u \<mapsto> un\<lparr>color := BLACK\<rparr>, p \<mapsto> pn\<lparr>color := BLACK\<rparr>,
                                   g \<mapsto> gn\<lparr>color := RED\<rparr>)\<rparr>)"
  using assms by (simp add: fixInsertion_body_def store_Some)

lemma fixInsertion_body_left_outer:
  assumes "mem t k = Some kn" "parent kn = Some p"
    and "mem t p = Some pn" "parent pn = Some g"
    and "mem t g = Some gn" "left gn = Some p" "Some p \<noteq> right gn"
    and "right gn = None \<or> (\<exists>u un. right gn = Some u \<and> mem t u = Some un \<and> color un \<noteq> RED)"
    and "right pn \<noteq> Some k"
    and "k \<noteq> p" "k \<noteq> g" "p \<noteq> g"
  shows "fixInsertion_body (Some k) t =
    rightRotate (Some g) (t\<lparr>mem := (mem t)(p \<mapsto> pn\<lparr>color := BLACK\<rparr>, g \<mapsto> gn\<lparr>color := RED\<rparr>)\<rparr>)
      \<bind> (\<lambda>t'. Some (Some k, t'))"
proof -
  have "Some k \<noteq> right pn" using assms(9) by auto
  with assms show ?thesis
    by (auto simp: fixInsertion_body_def store_Some)
qed

lemma fixInsertion_body_left_inner:
  assumes "mem t k = Some kn" "parent kn = Some p"
    and "mem t p = Some pn" "parent pn = Some g"
    and "mem t g = Some gn" "left gn = Some p" "Some p \<noteq> right gn"
    and "right gn = None \<or> (\<exists>u un. right gn = Some u \<and> mem t u = Some un \<and> color un \<noteq> RED)"
    and "right pn = Some k"
    and "leftRotate (Some p) t = Some t1"
    and "mem t1 p = Some pn1" "parent pn1 = Some k"
    and "mem t1 k = Some kn1" "parent kn1 = Some g"
    and "mem t1 g = Some gn1"
    and "k \<noteq> p" "k \<noteq> g" "p \<noteq> g"
  shows "fixInsertion_body (Some k) t =
    rightRotate (Some g) (t1\<lparr>mem := (mem t1)(k \<mapsto> kn1\<lparr>color := BLACK\<rparr>, g \<mapsto> gn1\<lparr>color := RED\<rparr>)\<rparr>)
      \<bind> (\<lambda>t'. Some (Some p, t'))"
  using assms
  by (auto simp: fixInsertion_body_def store_Some)

lemma fixInsertion_body_left:
  assumes wf: "well_formed t s" and rb: "root_black t" and k: "k \<in> set (inorder s)"
    and hk: "mem t k = Some kn" "parent kn = Some p"
    and hp: "mem t p = Some pn" "parent pn = Some g"
    and hg: "mem t g = Some gn" "left gn = Some p"
  shows "\<exists>k' t'. fixInsertion_body (Some k) t = Some (k', t') \<and> insfix_post t s k k' t'"
proof -
  from grandparent_config [OF wf k hk hp] hg obtain
    gin: "g \<in> set (inorder s)" and pin: "p \<in> set (inorder s)"
    and gl: "right gn \<noteq> Some p"
    and pside: "right pn = Some k \<and> left pn \<noteq> Some k \<or> left pn = Some k \<and> right pn \<noteq> Some k"
    and ne: "k \<noteq> p" "k \<noteq> g" "p \<noteq> g"
    and rt: "root t \<noteq> Some k" "root t \<noteq> Some p"
    and len: "length (inorder (sub_at k s)) < length (inorder (sub_at g s))"
    and uncle: "\<forall>u. (right gn = Some u \<or> left gn = Some u) \<and> u \<noteq> p \<longrightarrow>
        u \<noteq> k \<and> u \<noteq> g \<and> root t \<noteq> Some u \<and> (\<exists>un. mem t u = Some un)"
    by auto
  have un: "right gn = None \<or> (\<exists>u un. right gn = Some u \<and> mem t u = Some un \<and> u \<noteq> p \<and> u \<noteq> k
      \<and> u \<noteq> g \<and> root t \<noteq> Some u)"
  proof (cases "right gn")
    case None
    then show ?thesis by simp
  next
    case (Some u)
    with gl have "u \<noteq> p" by auto
    with Some uncle show ?thesis by auto
  qed
  consider (red) u un where "right gn = Some u" "mem t u = Some un" "color un = RED"
      "u \<noteq> p" "u \<noteq> k" "u \<noteq> g" "root t \<noteq> Some u"
    | (black) "right gn = None \<or> (\<exists>u un. right gn = Some u \<and> mem t u = Some un \<and> color un \<noteq> RED)"
    using un by blast
  then show ?thesis
  proof cases
    case red
    let ?t' = "t\<lparr>mem := (mem t)(u \<mapsto> un\<lparr>color := BLACK\<rparr>, p \<mapsto> pn\<lparr>color := BLACK\<rparr>,
                                   g \<mapsto> gn\<lparr>color := RED\<rparr>)\<rparr>"
    have body: "fixInsertion_body (Some k) t = Some (Some g, ?t')"
      using hk hp hg red ne gl by (intro fixInsertion_body_left_red_uncle) auto
    have lk: "\<And>a. map_option links (mem ?t' a) = map_option links (mem t a)"
      using hp hg red by (simp add: links_def)
    have wf': "well_formed ?t' s"
      by (rule well_formed_links [OF wf lk]) simp
    have dt: "\<forall>a. map_option data (mem ?t' a) = map_option data (mem t a)"
      using hp hg red by simp
    have rbg: "root ?t' \<noteq> Some g \<longrightarrow> root_black ?t'"
    proof
      assume "root ?t' \<noteq> Some g"
      then have rg: "root t \<noteq> Some g" by simp
      show "root_black ?t'"
      proof (rule root_black_cong [OF rb])
        show "root ?t' = root t" by simp
        fix r assume "root t = Some r"
        with rg rt red(7) have "r \<noteq> g" "r \<noteq> p" "r \<noteq> u" by auto
        then show "map_option color (mem ?t' r) = map_option color (mem t r)" by simp
      qed
    qed
    have cu: "col (mem t) u = RED" using red by (simp add: col_Some)
    have cc: "col (mem ?t') = (col (mem t))(u := BLACK, p := BLACK, g := RED)"
      by simp
    have sides: "left gn = Some u \<and> right gn = Some p \<or> right gn = Some u \<and> left gn = Some p"
      using hg(2) red(1) by simp
    have step: "insfix_step t s k g ?t' s"
      by (rule insfix_step_red [OF hk hp hg(1) sides cu cc])
    from wf' dt gin len step rbg have "insfix_post t s k (Some g) ?t'"
      unfolding insfix_post_def
      by (intro exI [of _ s] exI [of _ g]) simp
    with body show ?thesis by blast
  next
    case black
    show ?thesis
    proof (cases "right pn = Some k")
      case False
      with pside have pr: "left pn = Some k" by auto
      let ?t2 = "t\<lparr>mem := (mem t)(p \<mapsto> pn\<lparr>color := BLACK\<rparr>, g \<mapsto> gn\<lparr>color := RED\<rparr>)\<rparr>"
      have body: "fixInsertion_body (Some k) t = rightRotate (Some g) ?t2 \<bind> (\<lambda>t'. Some (Some k, t'))"
        using hk hp hg black False ne gl by (intro fixInsertion_body_left_outer) auto
      have lk: "\<And>a. map_option links (mem ?t2 a) = map_option links (mem t a)"
        using hp hg by (simp add: links_def)
      have wf2: "well_formed ?t2 s"
        by (rule well_formed_links [OF wf lk]) simp
      have hg2: "mem ?t2 g = Some (gn\<lparr>color := RED\<rparr>)" "left (gn\<lparr>color := RED\<rparr>) = Some p"
        using hg by simp_all
      from rightRotate_full [OF wf2 gin hg2] ne obtain t3 where
        t3: "rightRotate (Some g) ?t2 = Some t3" "well_formed t3 (rotate_right_at g s)"
          "brk t3 = brk t" "root t3 = (if root t = Some g then Some p else root t)"
          "mem t3 p = Some (pn\<lparr>color := BLACK, right := Some g, parent := parent gn\<rparr>)"
          "\<forall>a. map_option color (mem t3 a) = map_option color (mem ?t2 a)"
          "\<forall>a. map_option data (mem t3 a) = map_option data (mem ?t2 a)"
        by auto
      have pin3: "p \<in> set (inorder (rotate_right_at g s))" using pin by simp
      from well_formed_child_parent [OF t3(2) pin3 t3(5)] pr obtain kn3 where
        kn3: "mem t3 k = Some kn3" "parent kn3 = Some p" by auto
      have rb3: "root_black t3"
      proof (cases "root t = Some g")
        case True
        with t3(4,5) show ?thesis by (simp add: root_black_def)
      next
        case False
        with t3(4) have r3: "root t3 = root t" by simp
        show ?thesis
        proof (rule root_black_cong [OF rb r3])
          fix r assume "root t = Some r"
          with False rt have "r \<noteq> g" "r \<noteq> p" by auto
          with t3(6) show "map_option color (mem t3 r) = map_option color (mem t r)" by simp
        qed
      qed
      have dt: "\<forall>a. map_option data (mem t3 a) = map_option data (mem t a)"
        using t3(7) hp hg by simp
      have ub: "\<forall>u. right gn = Some u \<longrightarrow> col (mem t) u = BLACK"
        using black by (auto simp: col_Some)
      have "col (mem t3) = col (mem ?t2)"
        using t3(6) by (intro col_eqI) simp
      then have cc: "col (mem t3) = (col (mem t))(p := BLACK, g := RED)" by simp
      have step: "insfix_step t s k k t3 (rotate_right_at g s)"
        by (rule insfix_step_left_outer [OF hk hp hg ub pr cc])
      have "insfix_post t s k (Some k) t3"
        unfolding insfix_post_def
        using t3(2,3,5) dt k rb3 kn3 step
        by (intro exI [of _ "rotate_right_at g s"] exI [of _ k]) simp
      with body t3(1) show ?thesis by simp
    next
      case True
      from leftRotate_correct [OF wf pin hp(1) True] hk(1) hp(2) hg ne rt obtain t1 where
        t1: "leftRotate (Some p) t = Some t1" "well_formed t1 (rotate_left_at p s)"
          "brk t1 = brk t" "root t1 = root t"
          "mem t1 p = Some (pn\<lparr>right := left kn, parent := Some k\<rparr>)"
          "mem t1 k = Some (kn\<lparr>left := Some p, parent := Some g\<rparr>)"
          "mem t1 g = Some (gn\<lparr>left := Some k\<rparr>)"
        by auto
      from leftRotate_claim [OF wf pin hp(1) True] t1(1) have
        cl1: "\<forall>a. map_option color (mem t1 a) = map_option color (mem t a)"
          "\<forall>a. map_option data (mem t1 a) = map_option data (mem t a)"
        by auto
      let ?kn1 = "kn\<lparr>left := Some p, parent := Some g\<rparr>"
      let ?gn1 = "gn\<lparr>left := Some k\<rparr>"
      let ?t3 = "t1\<lparr>mem := (mem t1)(k \<mapsto> ?kn1\<lparr>color := BLACK\<rparr>, g \<mapsto> ?gn1\<lparr>color := RED\<rparr>)\<rparr>"
      have body: "fixInsertion_body (Some k) t = rightRotate (Some g) ?t3 \<bind> (\<lambda>t'. Some (Some p, t'))"
        using hk hp hg black True t1 ne gl
        by (intro fixInsertion_body_left_inner [where ?pn1.0 = "pn\<lparr>right := left kn, parent := Some k\<rparr>"]) auto
      have lk: "\<And>a. map_option links (mem ?t3 a) = map_option links (mem t1 a)"
        using t1 by (simp add: links_def)
      have wf3: "well_formed ?t3 (rotate_left_at p s)"
        by (rule well_formed_links [OF t1(2) lk]) simp
      have gin1: "g \<in> set (inorder (rotate_left_at p s))" using gin by simp
      have hg3: "mem ?t3 g = Some (?gn1\<lparr>color := RED\<rparr>)" "left (?gn1\<lparr>color := RED\<rparr>) = Some k"
        by simp_all
      from rightRotate_full [OF wf3 gin1 hg3] ne t1 obtain t4 where
        t4: "rightRotate (Some g) ?t3 = Some t4"
          "well_formed t4 (rotate_right_at g (rotate_left_at p s))"
          "brk t4 = brk t" "root t4 = (if root t = Some g then Some k else root t)"
          "mem t4 k = Some (?kn1\<lparr>color := BLACK, right := Some g, parent := parent gn\<rparr>)"
          "\<forall>a. map_option color (mem t4 a) = map_option color (mem ?t3 a)"
          "\<forall>a. map_option data (mem t4 a) = map_option data (mem ?t3 a)"
        by auto
      have kin4: "k \<in> set (inorder (rotate_right_at g (rotate_left_at p s)))" using k by simp
      from well_formed_child_parent [OF t4(2) kin4 t4(5), of p] obtain pn4 where
        pn4: "mem t4 p = Some pn4" "parent pn4 = Some k" by auto
      have rb4: "root_black t4"
      proof (cases "root t = Some g")
        case True
        with t4(4,5) show ?thesis by (simp add: root_black_def)
      next
        case False
        with t4(4) have r4: "root t4 = root t" by simp
        show ?thesis
        proof (rule root_black_cong [OF rb r4])
          fix r assume "root t = Some r"
          with False rt have "r \<noteq> g" "r \<noteq> k" by auto
          with t4(6) cl1(1) show "map_option color (mem t4 r) = map_option color (mem t r)" by simp
        qed
      qed
      have dt: "\<forall>a. map_option data (mem t4 a) = map_option data (mem t a)"
        using t4(7) cl1(2) t1(6,7) hk hg
        by (auto simp: map_option_case split: option.splits if_splits)
      have ub: "\<forall>u. right gn = Some u \<longrightarrow> col (mem t) u = BLACK"
        using black by (auto simp: col_Some)
      have c43: "col (mem t4) = col (mem ?t3)"
        using t4(6) by (intro col_eqI) simp
      have c1: "col (mem t1) = col (mem t)"
        using cl1(1) by (intro col_eqI) simp
      have cc: "col (mem t4) = (col (mem t))(k := BLACK, g := RED)"
        unfolding c43 using c1 by simp
      have step: "insfix_step t s k p t4 (rotate_right_at g (rotate_left_at p s))"
        by (rule insfix_step_left_inner [OF hk hp hg ub True cc])
      have "insfix_post t s k (Some p) t4"
        unfolding insfix_post_def
        using t4(2,3,5) dt pin rb4 pn4 step
        by (intro exI [of _ "rotate_right_at g (rotate_left_at p s)"] exI [of _ p]) simp
      with body t4(1) show ?thesis by simp
    qed
  qed
qed

lemma subst_at_sub_at_id [simp]: "subst_at x (sub_at x s) s = s"
  by (induction s) auto

lemma balanced_sub_at: "balanced c s \<Longrightarrow> balanced c (sub_at x s)"
  by (induction s) auto

lemma no_red_red_sub_at: "no_red_red k c s \<Longrightarrow> no_red_red k c (sub_at x s)"
  by (induction s) auto

lemma no_red_red_None: "no_red_red None c s \<Longrightarrow> no_red_red k c s"
  by (induction s) auto

lemma unchanged:
  assumes c: "\<And>a. a \<in> set (inorder s) \<Longrightarrow> c' a = c a" and d: "distinct (inorder s)"
    and k: "\<And>x. k = Some x \<Longrightarrow> x \<notin> set (inorder s) \<or> is_root k s"
    and k': "\<And>x. k' = Some x \<Longrightarrow> x \<notin> set (inorder s) \<or> is_root k' s"
  shows "balanced c' s = balanced c s \<and> bheight c' s = bheight c s \<and>
         rootcol c' s = rootcol c s \<and> no_red_red k' c' s = no_red_red k c s"
proof -
  have "no_red_red k' c' s = no_red_red k c s"
  proof (cases s)
    case Tip
    then show ?thesis by simp
  next
    case (Nd l a r)
    have kl: "\<And>x. k = Some x \<Longrightarrow> x \<notin> set (inorder l) \<and> x \<notin> set (inorder r)"
      using k d Nd by auto
    have k'l: "\<And>x. k' = Some x \<Longrightarrow> x \<notin> set (inorder l) \<and> x \<notin> set (inorder r)"
      using k' d Nd by auto
    have l: "no_red_red k' c' l = no_red_red k c l"
      using c kl k'l Nd by (intro no_red_red_cong) auto
    have r: "no_red_red k' c' r = no_red_red k c r"
      using c kl k'l Nd by (intro no_red_red_cong) auto
    have rl: "rootcol c' l = rootcol c l" "rootcol c' r = rootcol c r"
      using c Nd by (auto intro!: rootcol_cong)
    have nk: "\<not> is_root k l" "\<not> is_root k r" "\<not> is_root k' l" "\<not> is_root k' r"
      using kl k'l by (cases k; cases k'; auto dest: is_root_in)+
    show ?thesis using l r rl nk c Nd by simp
  qed
  moreover have "balanced c' s = balanced c s" using c by (intro balanced_cong) auto
  moreover have "bheight c' s = bheight c s" using c by (intro bheight_cong) auto
  moreover have "rootcol c' s = rootcol c s" using c by (intro rootcol_cong) auto
  ultimately show ?thesis by simp
qed

text \<open>The three ways through one round, at the grandparent: recolouring under a red uncle.\<close>

lemma recolour_local:
  assumes d: "distinct (inorder (Nd gl g gr))"
    and sh: "gl = Nd ul u ur \<and> gr = Nd pl p pr \<or> gl = Nd pl p pr \<and> gr = Nd ul u ur"
    and kroot: "is_root (Some k) pl \<or> is_root (Some k) pr"
    and bal: "balanced c (Nd gl g gr)" and nrr: "no_red_red (Some k) c (Nd gl g gr)"
    and red: "c p = RED" "c u = RED"
    and c': "c' = c(u := BLACK, p := BLACK, g := RED)"
  shows "balanced c' (Nd gl g gr) \<and> bheight c' (Nd gl g gr) = bheight c (Nd gl g gr) \<and>
         no_red_red (Some g) c' (Nd gl g gr)"
proof -
  have kin: "k \<in> set (inorder pl) \<union> set (inorder pr)"
    using kroot by (auto dest: is_root_in)
  have kp: "k \<noteq> p" "k \<noteq> u" "k \<noteq> g" using kin d sh by auto
  have cg: "c g = BLACK"
    using nrr sh red kp by (cases "c g") auto
  have dp: "set (inorder pl) \<inter> set (inorder pr) = {}" using d sh by auto
  have kpl: "k \<notin> set (inorder pl) \<or> is_root (Some k) pl"
    using kroot dp by (auto dest: is_root_in)
  have kpr: "k \<notin> set (inorder pr) \<or> is_root (Some k) pr"
    using kroot dp by (auto dest: is_root_in)
  have ku: "k \<notin> set (inorder ul)" "k \<notin> set (inorder ur)"
    using kin d sh by auto
  have gn: "g \<notin> set (inorder pl)" "g \<notin> set (inorder pr)" "g \<notin> set (inorder ul)"
    "g \<notin> set (inorder ur)" using d sh by auto
  have cpl: "\<And>a. a \<in> set (inorder pl) \<Longrightarrow> c' a = c a" using d sh unfolding c' by auto
  have cpr: "\<And>a. a \<in> set (inorder pr) \<Longrightarrow> c' a = c a" using d sh unfolding c' by auto
  have cul: "\<And>a. a \<in> set (inorder ul) \<Longrightarrow> c' a = c a" using d sh unfolding c' by auto
  have cur: "\<And>a. a \<in> set (inorder ur) \<Longrightarrow> c' a = c a" using d sh unfolding c' by auto
  have dd: "distinct (inorder pl)" "distinct (inorder pr)" "distinct (inorder ul)"
    "distinct (inorder ur)" using d sh by auto
  have PL: "balanced c' pl = balanced c pl \<and> bheight c' pl = bheight c pl \<and>
         rootcol c' pl = rootcol c pl \<and> no_red_red (Some g) c' pl = no_red_red (Some k) c pl"
    using kpl gn by (intro unchanged [OF cpl dd(1)]) auto
  have PR: "balanced c' pr = balanced c pr \<and> bheight c' pr = bheight c pr \<and>
         rootcol c' pr = rootcol c pr \<and> no_red_red (Some g) c' pr = no_red_red (Some k) c pr"
    using kpr gn by (intro unchanged [OF cpr dd(2)]) auto
  have UL: "balanced c' ul = balanced c ul \<and> bheight c' ul = bheight c ul \<and>
         rootcol c' ul = rootcol c ul \<and> no_red_red (Some g) c' ul = no_red_red (Some k) c ul"
    using ku gn by (intro unchanged [OF cul dd(3)]) auto
  have UR: "balanced c' ur = balanced c ur \<and> bheight c' ur = bheight c ur \<and>
         rootcol c' ur = rootcol c ur \<and> no_red_red (Some g) c' ur = no_red_red (Some k) c ur"
    using ku gn by (intro unchanged [OF cur dd(4)]) auto
  have neq: "p \<noteq> g" "u \<noteq> g" "u \<noteq> p" using d sh by auto
  from sh show ?thesis
  proof
    assume s: "gl = Nd ul u ur \<and> gr = Nd pl p pr"
    then show ?thesis using bal nrr red cg PL PR UL UR neq by (simp add: c')
  next
    assume s: "gl = Nd pl p pr \<and> gr = Nd ul u ur"
    then show ?thesis using bal nrr red cg PL PR UL UR neq by (simp add: c')
  qed
qed

lemma unchanged2:
  assumes "distinct (inorder s)" and "a \<notin> set (inorder s)" and "b \<notin> set (inorder s)"
    and "k \<notin> set (inorder s) \<or> is_root (Some k) s"
  shows "balanced (c(a := x, b := y)) s = balanced c s \<and>
         bheight (c(a := x, b := y)) s = bheight c s \<and>
         rootcol (c(a := x, b := y)) s = rootcol c s \<and>
         no_red_red None (c(a := x, b := y)) s = no_red_red (Some k) c s"
  using assms by (intro unchanged) auto

text \<open>Rotating at the grandparent when the uncle is black and the node an outer grandchild.\<close>

lemma outer_right_local:
  assumes d: "distinct (inorder (Nd gl g (Nd pl p kt)))" and kroot: "is_root (Some k) kt"
    and bal: "balanced c (Nd gl g (Nd pl p kt))"
    and nrr: "no_red_red (Some k) c (Nd gl g (Nd pl p kt))"
    and ub: "rootcol c gl = BLACK" and cp: "c p = RED"
    and c': "c' = c(p := BLACK, g := RED)"
  shows "balanced c' (Nd (Nd gl g pl) p kt) \<and>
         bheight c' (Nd (Nd gl g pl) p kt) = bheight c (Nd gl g (Nd pl p kt)) \<and>
         no_red_red None c' (Nd (Nd gl g pl) p kt)"
proof -
  have kin: "k \<in> set (inorder kt)" using kroot by (rule is_root_in)
  have kn: "k \<noteq> p" "k \<noteq> g" "p \<noteq> g" "k \<notin> set (inorder gl)" "k \<notin> set (inorder pl)"
    using kin d by auto
  have cg: "c g = BLACK" using nrr cp kn by (cases "c g") auto
  have GL: "balanced c' gl = balanced c gl \<and> bheight c' gl = bheight c gl \<and>
         rootcol c' gl = rootcol c gl \<and> no_red_red None c' gl = no_red_red (Some k) c gl"
    unfolding c' using d kn by (intro unchanged2) auto
  have PL: "balanced c' pl = balanced c pl \<and> bheight c' pl = bheight c pl \<and>
         rootcol c' pl = rootcol c pl \<and> no_red_red None c' pl = no_red_red (Some k) c pl"
    unfolding c' using d kn by (intro unchanged2) auto
  have KT: "balanced c' kt = balanced c kt \<and> bheight c' kt = bheight c kt \<and>
         rootcol c' kt = rootcol c kt \<and> no_red_red None c' kt = no_red_red (Some k) c kt"
    unfolding c' using d kroot by (intro unchanged2) auto
  have npl: "\<not> is_root (Some k) pl" using kn by (auto dest: is_root_in)
  show ?thesis using bal nrr ub cp cg GL PL KT kn npl by (simp add: c')
qed

lemma outer_left_local:
  assumes d: "distinct (inorder (Nd (Nd kt p pr) g gr))" and kroot: "is_root (Some k) kt"
    and bal: "balanced c (Nd (Nd kt p pr) g gr)"
    and nrr: "no_red_red (Some k) c (Nd (Nd kt p pr) g gr)"
    and ub: "rootcol c gr = BLACK" and cp: "c p = RED"
    and c': "c' = c(p := BLACK, g := RED)"
  shows "balanced c' (Nd kt p (Nd pr g gr)) \<and>
         bheight c' (Nd kt p (Nd pr g gr)) = bheight c (Nd (Nd kt p pr) g gr) \<and>
         no_red_red None c' (Nd kt p (Nd pr g gr))"
proof -
  have kin: "k \<in> set (inorder kt)" using kroot by (rule is_root_in)
  have kn: "k \<noteq> p" "k \<noteq> g" "p \<noteq> g" "k \<notin> set (inorder gr)" "k \<notin> set (inorder pr)"
    using kin d by auto
  have cg: "c g = BLACK" using nrr cp kn by (cases "c g") auto
  have GR: "balanced c' gr = balanced c gr \<and> bheight c' gr = bheight c gr \<and>
         rootcol c' gr = rootcol c gr \<and> no_red_red None c' gr = no_red_red (Some k) c gr"
    unfolding c' using d kn by (intro unchanged2) auto
  have PR: "balanced c' pr = balanced c pr \<and> bheight c' pr = bheight c pr \<and>
         rootcol c' pr = rootcol c pr \<and> no_red_red None c' pr = no_red_red (Some k) c pr"
    unfolding c' using d kn by (intro unchanged2) auto
  have KT: "balanced c' kt = balanced c kt \<and> bheight c' kt = bheight c kt \<and>
         rootcol c' kt = rootcol c kt \<and> no_red_red None c' kt = no_red_red (Some k) c kt"
    unfolding c' using d kroot by (intro unchanged2) auto
  have npr: "\<not> is_root (Some k) pr" using kn by (auto dest: is_root_in)
  show ?thesis using bal nrr ub cp cg GR PR KT kn npr by (simp add: c')
qed

text \<open>The inner grandchild: rotated at the parent first, it ends at the top of the three.\<close>

lemma inner_right_local:
  assumes d: "distinct (inorder (Nd gl g (Nd (Nd kl k kr) p pr)))"
    and bal: "balanced c (Nd gl g (Nd (Nd kl k kr) p pr))"
    and nrr: "no_red_red (Some k) c (Nd gl g (Nd (Nd kl k kr) p pr))"
    and ub: "rootcol c gl = BLACK" and cp: "c p = RED" and ck: "c k = RED"
    and c': "c' = c(k := BLACK, g := RED)"
  shows "balanced c' (Nd (Nd gl g kl) k (Nd kr p pr)) \<and>
         bheight c' (Nd (Nd gl g kl) k (Nd kr p pr)) = bheight c (Nd gl g (Nd (Nd kl k kr) p pr)) \<and>
         no_red_red None c' (Nd (Nd gl g kl) k (Nd kr p pr))"
proof -
  have kn: "k \<noteq> p" "k \<noteq> g" "p \<noteq> g" "k \<notin> set (inorder gl)" "k \<notin> set (inorder pr)"
    "k \<notin> set (inorder kl)" "k \<notin> set (inorder kr)"
    using d by auto
  have cg: "c g = BLACK" using nrr cp kn by (cases "c g") auto
  have GL: "balanced c' gl = balanced c gl \<and> bheight c' gl = bheight c gl \<and>
         rootcol c' gl = rootcol c gl \<and> no_red_red None c' gl = no_red_red (Some k) c gl"
    unfolding c' using d kn by (intro unchanged2) auto
  have PR: "balanced c' pr = balanced c pr \<and> bheight c' pr = bheight c pr \<and>
         rootcol c' pr = rootcol c pr \<and> no_red_red None c' pr = no_red_red (Some k) c pr"
    unfolding c' using d kn by (intro unchanged2) auto
  have KL: "balanced c' kl = balanced c kl \<and> bheight c' kl = bheight c kl \<and>
         rootcol c' kl = rootcol c kl \<and> no_red_red None c' kl = no_red_red (Some k) c kl"
    unfolding c' using d kn by (intro unchanged2) auto
  have KR: "balanced c' kr = balanced c kr \<and> bheight c' kr = bheight c kr \<and>
         rootcol c' kr = rootcol c kr \<and> no_red_red None c' kr = no_red_red (Some k) c kr"
    unfolding c' using d kn by (intro unchanged2) auto
  have nr: "\<not> is_root (Some k) pr" "\<not> is_root (Some k) kl" "\<not> is_root (Some k) kr"
    using kn by (auto dest: is_root_in)
  show ?thesis using bal nrr ub cp ck cg GL PR KL KR kn nr by (simp add: c')
qed

lemma inner_left_local:
  assumes d: "distinct (inorder (Nd (Nd pl p (Nd kl k kr)) g gr))"
    and bal: "balanced c (Nd (Nd pl p (Nd kl k kr)) g gr)"
    and nrr: "no_red_red (Some k) c (Nd (Nd pl p (Nd kl k kr)) g gr)"
    and ub: "rootcol c gr = BLACK" and cp: "c p = RED" and ck: "c k = RED"
    and c': "c' = c(k := BLACK, g := RED)"
  shows "balanced c' (Nd (Nd pl p kl) k (Nd kr g gr)) \<and>
         bheight c' (Nd (Nd pl p kl) k (Nd kr g gr)) = bheight c (Nd (Nd pl p (Nd kl k kr)) g gr) \<and>
         no_red_red None c' (Nd (Nd pl p kl) k (Nd kr g gr))"
proof -
  have kn: "k \<noteq> p" "k \<noteq> g" "p \<noteq> g" "k \<notin> set (inorder gr)" "k \<notin> set (inorder pl)"
    "k \<notin> set (inorder kl)" "k \<notin> set (inorder kr)"
    using d by auto
  have cg: "c g = BLACK" using nrr cp kn by (cases "c g") auto
  have GR: "balanced c' gr = balanced c gr \<and> bheight c' gr = bheight c gr \<and>
         rootcol c' gr = rootcol c gr \<and> no_red_red None c' gr = no_red_red (Some k) c gr"
    unfolding c' using d kn by (intro unchanged2) auto
  have PL: "balanced c' pl = balanced c pl \<and> bheight c' pl = bheight c pl \<and>
         rootcol c' pl = rootcol c pl \<and> no_red_red None c' pl = no_red_red (Some k) c pl"
    unfolding c' using d kn by (intro unchanged2) auto
  have KL: "balanced c' kl = balanced c kl \<and> bheight c' kl = bheight c kl \<and>
         rootcol c' kl = rootcol c kl \<and> no_red_red None c' kl = no_red_red (Some k) c kl"
    unfolding c' using d kn by (intro unchanged2) auto
  have KR: "balanced c' kr = balanced c kr \<and> bheight c' kr = bheight c kr \<and>
         rootcol c' kr = rootcol c kr \<and> no_red_red None c' kr = no_red_red (Some k) c kr"
    unfolding c' using d kn by (intro unchanged2) auto
  have nr: "\<not> is_root (Some k) pl" "\<not> is_root (Some k) kl" "\<not> is_root (Some k) kr"
    using kn by (auto dest: is_root_in)
  show ?thesis using bal nrr ub cp ck cg GR PL KL KR kn nr by (simp add: c')
qed

lemma sub_at_subst_at:
  assumes "distinct (inorder s)" and "y \<in> set (inorder (sub_at x s))" and "y \<noteq> x"
    and "inorder v = inorder (sub_at y s)"
  shows "sub_at x (subst_at y v s) = subst_at y v (sub_at x s)"
  using assms
proof (induction s)
  case Tip
  then show ?case by simp
next
  case (Nd l a r)
  show ?case
  proof (cases "a = x")
    case True
    with Nd.prems show ?thesis by simp
  next
    case False
    note ax = this
    show ?thesis
    proof (cases "x \<in> set (inorder l)")
      case True
      with ax Nd.prems have y: "y \<in> set (inorder (sub_at x l))" by simp
      with sub_at_subset [of x l] have yl: "y \<in> set (inorder l)" by auto
      with Nd.prems(1) have ya: "y \<noteq> a" by auto
      with yl Nd.prems(4) have v: "inorder v = inorder (sub_at y l)" by simp
      have io: "inorder (subst_at y v l) = inorder l"
        by (rule inorder_subst_at [OF v yl])
      have "sub_at x (subst_at y v l) = subst_at y v (sub_at x l)"
        using Nd.prems(1) y Nd.prems(3) v by (intro Nd.IH(1)) auto
      with ax True ya yl io show ?thesis by simp
    next
      case False
      with ax Nd.prems have y: "y \<in> set (inorder (sub_at x r))" by simp
      with sub_at_subset [of x r] have yr: "y \<in> set (inorder r)" by auto
      with Nd.prems(1) have ya: "y \<noteq> a" and yl: "y \<notin> set (inorder l)" by auto
      with Nd.prems(4) have v: "inorder v = inorder (sub_at y r)" by simp
      have "sub_at x (subst_at y v r) = subst_at y v (sub_at x r)"
        using Nd.prems(1) y Nd.prems(3) v by (intro Nd.IH(2)) auto
      with ax False ya yl show ?thesis by simp
    qed
  qed
qed

lemma subst_at_subst_at:
  assumes "distinct (inorder s)" and "y \<in> set (inorder (sub_at x s))" and "y \<noteq> x"
    and "inorder v = inorder (sub_at y s)"
  shows "subst_at x u (subst_at y v s) = subst_at x u s"
  using assms
proof (induction s)
  case Tip
  then show ?case by simp
next
  case (Nd l a r)
  show ?case
  proof (cases "a = x")
    case True
    with Nd.prems show ?thesis by simp
  next
    case False
    note ax = this
    show ?thesis
    proof (cases "x \<in> set (inorder l)")
      case True
      with ax Nd.prems have y: "y \<in> set (inorder (sub_at x l))" by simp
      with sub_at_subset [of x l] have yl: "y \<in> set (inorder l)" by auto
      with Nd.prems(1) have ya: "y \<noteq> a" by auto
      with yl Nd.prems(4) have v: "inorder v = inorder (sub_at y l)" by simp
      have io: "inorder (subst_at y v l) = inorder l"
        by (rule inorder_subst_at [OF v yl])
      have "subst_at x u (subst_at y v l) = subst_at x u l"
        using Nd.prems(1) y Nd.prems(3) v by (intro Nd.IH(1)) auto
      with ax True ya yl io show ?thesis by simp
    next
      case False
      with ax Nd.prems have y: "y \<in> set (inorder (sub_at x r))" by simp
      with sub_at_subset [of x r] have yr: "y \<in> set (inorder r)" by auto
      with Nd.prems(1) have ya: "y \<noteq> a" and yl: "y \<notin> set (inorder l)" by auto
      with Nd.prems(4) have v: "inorder v = inorder (sub_at y r)" by simp
      have "subst_at x u (subst_at y v r) = subst_at x u r"
        using Nd.prems(1) y Nd.prems(3) v by (intro Nd.IH(2)) auto
      with ax False ya yl show ?thesis by simp
    qed
  qed
qed

lemma sub_at_in: "sub_at x s = Nd l x r \<Longrightarrow> x \<in> set (inorder s)"
  using sub_at_subset [of x s] by auto

text \<open>The invariants of the whole shape after a change below the grandparent.\<close>

lemma replace_below:
  assumes d: "distinct (inorder s)" and sub: "sub_at g s = Nd gl g gr"
    and bal: "balanced c s" and nrr: "no_red_red (Some k) c s"
    and kin: "k \<in> set (inorder (Nd gl g gr))"
    and out: "\<And>a. a \<notin> set (inorder (Nd gl g gr)) \<Longrightarrow> c' a = c a"
    and io: "inorder u = inorder (Nd gl g gr)"
    and loc: "balanced c' u \<and> bheight c' u = bheight c (Nd gl g gr) \<and> no_red_red k' c' u"
    and rootu: "rootcol c' u = BLACK \<or> is_root k' u"
    and k': "\<And>y. k' = Some y \<Longrightarrow> y \<in> set (inorder u)"
  shows "balanced c' (subst_at g u s) \<and> no_red_red k' c' (subst_at g u s)"
proof -
  have gin: "g \<in> set (inorder s)" by (rule sub_at_in [OF sub])
  have "balanced c' (subst_at g u s) \<and> bheight c' (subst_at g u s) = bheight c s \<and>
         no_red_red k' c' (subst_at g u s)"
  proof (rule inv_subst_at [OF d gin _ bal nrr, where k' = k' and u = u])
    fix a assume "a \<notin> set (inorder (sub_at g s))"
    then show "c' a = c a" using out sub by simp
  next
    fix y assume "Some k = Some y"
    then show "y \<in> set (inorder (sub_at g s))" using kin sub by simp
  next
    fix y assume "k' = Some y"
    then show "y \<in> set (inorder u)" by (rule k')
  next
    show "set (inorder u) = set (inorder (sub_at g s))" using io sub by simp
    show "balanced c' u" using loc by simp
    show "bheight c' u = bheight c (sub_at g s)" using loc sub by simp
    show "no_red_red k' c' u" using loc by simp
    show "rootcol c' u = BLACK \<or> is_root k' u" by (rule rootu)
  qed
  then show ?thesis by simp
qed

lemma recolour_shape:
  assumes d: "distinct (inorder s)" and sub: "sub_at g s = Nd gl g gr"
    and sh: "gl = Nd ul u ur \<and> gr = Nd pl p pr \<or> gl = Nd pl p pr \<and> gr = Nd ul u ur"
    and kroot: "is_root (Some k) pl \<or> is_root (Some k) pr"
    and bal: "balanced c s" and nrr: "no_red_red (Some k) c s"
    and red: "c p = RED" "c u = RED"
    and c': "c' = c(u := BLACK, p := BLACK, g := RED)"
  shows "balanced c' s \<and> no_red_red (Some g) c' s"
proof -
  have dg: "distinct (inorder (Nd gl g gr))"
    using sub_at_distinct [OF d, of g] sub by simp
  have bg: "balanced c (Nd gl g gr)" using balanced_sub_at [OF bal, of g] sub by simp
  have ng: "no_red_red (Some k) c (Nd gl g gr)" using no_red_red_sub_at [OF nrr, of g] sub by simp
  have loc: "balanced c' (Nd gl g gr) \<and> bheight c' (Nd gl g gr) = bheight c (Nd gl g gr) \<and>
         no_red_red (Some g) c' (Nd gl g gr)"
    by (rule recolour_local [OF dg sh kroot bg ng red c'])
  have kin: "k \<in> set (inorder (Nd gl g gr))"
    using kroot sh by (auto dest: is_root_in)
  have out: "\<And>a. a \<notin> set (inorder (Nd gl g gr)) \<Longrightarrow> c' a = c a"
    using sh unfolding c' by auto
  have "balanced c' (subst_at g (Nd gl g gr) s) \<and> no_red_red (Some g) c' (subst_at g (Nd gl g gr) s)"
    by (rule replace_below [OF d sub bal nrr kin out _ loc]) auto
  moreover have "subst_at g (Nd gl g gr) s = s"
    using subst_at_sub_at_id [of g s] sub by simp
  ultimately show ?thesis by simp
qed

lemma outer_right_shape:
  assumes d: "distinct (inorder s)" and sub: "sub_at g s = Nd gl g (Nd pl p kt)"
    and kroot: "is_root (Some k) kt"
    and bal: "balanced c s" and nrr: "no_red_red (Some k) c s"
    and ub: "rootcol c gl = BLACK" and cp: "c p = RED"
    and c': "c' = c(p := BLACK, g := RED)"
  shows "balanced c' (rotate_left_at g s) \<and> no_red_red None c' (rotate_left_at g s)"
proof -
  let ?gr = "Nd pl p kt"
  let ?u = "Nd (Nd gl g pl) p kt"
  have dg: "distinct (inorder (Nd gl g ?gr))"
    using sub_at_distinct [OF d, of g] sub by simp
  have bg: "balanced c (Nd gl g ?gr)" using balanced_sub_at [OF bal, of g] sub by simp
  have ng: "no_red_red (Some k) c (Nd gl g ?gr)" using no_red_red_sub_at [OF nrr, of g] sub by simp
  have loc: "balanced c' ?u \<and> bheight c' ?u = bheight c (Nd gl g ?gr) \<and> no_red_red None c' ?u"
    by (rule outer_right_local [OF dg kroot bg ng ub cp c'])
  have kin: "k \<in> set (inorder (Nd gl g ?gr))"
    using kroot by (auto dest: is_root_in)
  have out: "\<And>a. a \<notin> set (inorder (Nd gl g ?gr)) \<Longrightarrow> c' a = c a"
    unfolding c' by auto
  have "balanced c' (subst_at g ?u s) \<and> no_red_red None c' (subst_at g ?u s)"
    by (rule replace_below [OF d sub bal nrr kin out _ loc]) (use dg in \<open>auto simp: c'\<close>)
  moreover have "rotate_left_at g s = subst_at g ?u s"
    by (simp add: rotate_left_at_def sub)
  ultimately show ?thesis by simp
qed

lemma outer_left_shape:
  assumes d: "distinct (inorder s)" and sub: "sub_at g s = Nd (Nd kt p pr) g gr"
    and kroot: "is_root (Some k) kt"
    and bal: "balanced c s" and nrr: "no_red_red (Some k) c s"
    and ub: "rootcol c gr = BLACK" and cp: "c p = RED"
    and c': "c' = c(p := BLACK, g := RED)"
  shows "balanced c' (rotate_right_at g s) \<and> no_red_red None c' (rotate_right_at g s)"
proof -
  let ?gl = "Nd kt p pr"
  let ?u = "Nd kt p (Nd pr g gr)"
  have dg: "distinct (inorder (Nd ?gl g gr))"
    using sub_at_distinct [OF d, of g] sub by simp
  have bg: "balanced c (Nd ?gl g gr)" using balanced_sub_at [OF bal, of g] sub by simp
  have ng: "no_red_red (Some k) c (Nd ?gl g gr)" using no_red_red_sub_at [OF nrr, of g] sub by simp
  have loc: "balanced c' ?u \<and> bheight c' ?u = bheight c (Nd ?gl g gr) \<and> no_red_red None c' ?u"
    by (rule outer_left_local [OF dg kroot bg ng ub cp c'])
  have kin: "k \<in> set (inorder (Nd ?gl g gr))"
    using kroot by (auto dest: is_root_in)
  have out: "\<And>a. a \<notin> set (inorder (Nd ?gl g gr)) \<Longrightarrow> c' a = c a"
    unfolding c' by auto
  have "balanced c' (subst_at g ?u s) \<and> no_red_red None c' (subst_at g ?u s)"
    by (rule replace_below [OF d sub bal nrr kin out _ loc]) (use dg in \<open>auto simp: c'\<close>)
  moreover have "rotate_right_at g s = subst_at g ?u s"
    by (simp add: rotate_right_at_def sub)
  ultimately show ?thesis by simp
qed

lemma inner_right_shape:
  assumes d: "distinct (inorder s)" and sub: "sub_at g s = Nd gl g (Nd (Nd kl k kr) p pr)"
    and bal: "balanced c s" and nrr: "no_red_red (Some k) c s"
    and ub: "rootcol c gl = BLACK" and cp: "c p = RED" and ck: "c k = RED"
    and c': "c' = c(k := BLACK, g := RED)"
  shows "balanced c' (rotate_left_at g (rotate_right_at p s)) \<and>
         no_red_red None c' (rotate_left_at g (rotate_right_at p s))"
proof -
  let ?gr = "Nd (Nd kl k kr) p pr"
  let ?v = "Nd kl k (Nd kr p pr)"
  let ?u = "Nd (Nd gl g kl) k (Nd kr p pr)"
  have dg: "distinct (inorder (Nd gl g ?gr))"
    using sub_at_distinct [OF d, of g] sub by simp
  have bg: "balanced c (Nd gl g ?gr)" using balanced_sub_at [OF bal, of g] sub by simp
  have ng: "no_red_red (Some k) c (Nd gl g ?gr)" using no_red_red_sub_at [OF nrr, of g] sub by simp
  have loc: "balanced c' ?u \<and> bheight c' ?u = bheight c (Nd gl g ?gr) \<and> no_red_red None c' ?u"
    by (rule inner_right_local [OF dg bg ng ub cp ck c'])
  have kin: "k \<in> set (inorder (Nd gl g ?gr))" by simp
  have out: "\<And>a. a \<notin> set (inorder (Nd gl g ?gr)) \<Longrightarrow> c' a = c a"
    unfolding c' by auto
  have res: "balanced c' (subst_at g ?u s) \<and> no_red_red None c' (subst_at g ?u s)"
    by (rule replace_below [OF d sub bal nrr kin out _ loc]) (use dg in \<open>auto simp: c'\<close>)
  have ping: "p \<in> set (inorder (sub_at g s))" using sub by simp
  have pg: "p \<noteq> g" using dg by auto
  have "sub_at p (sub_at g s) = sub_at p s" by (rule sub_at_sub_at [OF d ping])
  then have subp: "sub_at p s = ?gr" using sub dg by auto
  have r1: "rotate_right_at p s = subst_at p ?v s"
    by (simp add: rotate_right_at_def subp)
  have iv: "inorder ?v = inorder (sub_at p s)" using subp by simp
  have "sub_at g (subst_at p ?v s) = subst_at p ?v (sub_at g s)"
    by (rule sub_at_subst_at [OF d ping pg iv])
  then have subg: "sub_at g (subst_at p ?v s) = Nd gl g ?v" using sub dg by auto
  have "rotate_left_at g (rotate_right_at p s) = subst_at g ?u (subst_at p ?v s)"
    by (simp add: rotate_left_at_def r1 subg)
  also have "\<dots> = subst_at g ?u s" by (rule subst_at_subst_at [OF d ping pg iv])
  finally show ?thesis using res by simp
qed

lemma inner_left_shape:
  assumes d: "distinct (inorder s)" and sub: "sub_at g s = Nd (Nd pl p (Nd kl k kr)) g gr"
    and bal: "balanced c s" and nrr: "no_red_red (Some k) c s"
    and ub: "rootcol c gr = BLACK" and cp: "c p = RED" and ck: "c k = RED"
    and c': "c' = c(k := BLACK, g := RED)"
  shows "balanced c' (rotate_right_at g (rotate_left_at p s)) \<and>
         no_red_red None c' (rotate_right_at g (rotate_left_at p s))"
proof -
  let ?gl = "Nd pl p (Nd kl k kr)"
  let ?v = "Nd (Nd pl p kl) k kr"
  let ?u = "Nd (Nd pl p kl) k (Nd kr g gr)"
  have dg: "distinct (inorder (Nd ?gl g gr))"
    using sub_at_distinct [OF d, of g] sub by simp
  have bg: "balanced c (Nd ?gl g gr)" using balanced_sub_at [OF bal, of g] sub by simp
  have ng: "no_red_red (Some k) c (Nd ?gl g gr)" using no_red_red_sub_at [OF nrr, of g] sub by simp
  have loc: "balanced c' ?u \<and> bheight c' ?u = bheight c (Nd ?gl g gr) \<and> no_red_red None c' ?u"
    by (rule inner_left_local [OF dg bg ng ub cp ck c'])
  have kin: "k \<in> set (inorder (Nd ?gl g gr))" by simp
  have out: "\<And>a. a \<notin> set (inorder (Nd ?gl g gr)) \<Longrightarrow> c' a = c a"
    unfolding c' by auto
  have res: "balanced c' (subst_at g ?u s) \<and> no_red_red None c' (subst_at g ?u s)"
    by (rule replace_below [OF d sub bal nrr kin out _ loc]) (use dg in \<open>auto simp: c'\<close>)
  have ping: "p \<in> set (inorder (sub_at g s))" using sub by simp
  have pg: "p \<noteq> g" using dg by auto
  have "sub_at p (sub_at g s) = sub_at p s" by (rule sub_at_sub_at [OF d ping])
  then have subp: "sub_at p s = ?gl" using sub dg by auto
  have r1: "rotate_left_at p s = subst_at p ?v s"
    by (simp add: rotate_left_at_def subp)
  have iv: "inorder ?v = inorder (sub_at p s)" using subp by simp
  have "sub_at g (subst_at p ?v s) = subst_at p ?v (sub_at g s)"
    by (rule sub_at_subst_at [OF d ping pg iv])
  then have subg: "sub_at g (subst_at p ?v s) = Nd ?v g gr" using sub dg by auto
  have "rotate_right_at g (rotate_left_at p s) = subst_at g ?u (subst_at p ?v s)"
    by (simp add: rotate_right_at_def r1 subg)
  also have "\<dots> = subst_at g ?u s" by (rule subst_at_subst_at [OF d ping pg iv])
  finally show ?thesis using res by simp
qed

lemma is_tree_rootcol:
  "is_tree h par q s \<Longrightarrow> (\<And>u. q = Some u \<Longrightarrow> c u = BLACK) \<Longrightarrow> rootcol c s = BLACK"
  by (cases s) auto

text \<open>One round of the fix-up keeps the black heights, and leaves at most the edge into the
  new \<open>k\<close> red on both ends.\<close>

lemma insfix_step_colours:
  assumes wf: "well_formed t s" and k: "k \<in> set (inorder s)"
    and step: "insfix_step t s k j t' s'"
    and bal: "balanced (col (mem t)) s" and nrr: "no_red_red (Some k) (col (mem t)) s"
    and ck: "col (mem t) k = RED"
    and cpar: "\<forall>kn p. mem t k = Some kn \<longrightarrow> parent kn = Some p \<longrightarrow> col (mem t) p = RED"
  shows "balanced (col (mem t')) s' \<and> no_red_red (Some j) (col (mem t')) s' \<and>
         col (mem t') j = RED"
proof -
  let ?c = "col (mem t)"
  let ?c' = "col (mem t')"
  from step obtain kn p pn g gn where
    hk: "mem t k = Some kn" "parent kn = Some p" and
    hp: "mem t p = Some pn" "parent pn = Some g" and
    hg: "mem t g = Some gn" and
    alt: "(\<exists>u. (left gn = Some u \<and> right gn = Some p \<or> right gn = Some u \<and> left gn = Some p) \<and>
            ?c u = RED \<and> j = g \<and> s' = s \<and> ?c' = ?c(u := BLACK, p := BLACK, g := RED))
         \<or> (right gn = Some p \<and> (\<forall>u. left gn = Some u \<longrightarrow> ?c u = BLACK) \<and>
             right pn = Some k \<and> j = k \<and> s' = rotate_left_at g s \<and>
             ?c' = ?c(p := BLACK, g := RED))
         \<or> (right gn = Some p \<and> (\<forall>u. left gn = Some u \<longrightarrow> ?c u = BLACK) \<and>
             left pn = Some k \<and> j = p \<and> s' = rotate_left_at g (rotate_right_at p s) \<and>
             ?c' = ?c(k := BLACK, g := RED))
         \<or> (left gn = Some p \<and> (\<forall>u. right gn = Some u \<longrightarrow> ?c u = BLACK) \<and>
             left pn = Some k \<and> j = k \<and> s' = rotate_right_at g s \<and>
             ?c' = ?c(p := BLACK, g := RED))
         \<or> (left gn = Some p \<and> (\<forall>u. right gn = Some u \<longrightarrow> ?c u = BLACK) \<and>
             right pn = Some k \<and> j = p \<and> s' = rotate_right_at g (rotate_left_at p s) \<and>
             ?c' = ?c(k := BLACK, g := RED))"
    unfolding insfix_step_def by blast
  from wf have tr: "is_tree (mem t) None (root t) s" and d: "distinct (inorder s)"
    by (auto simp: well_formed_def)
  have cp: "?c p = RED" using cpar hk by blast
  have rk: "root t \<noteq> Some k"
    using well_formed_root [OF wf hk(1) k] hk(2) by auto
  from sub_at_parent [OF tr d k rk hk] hp(1) obtain pl pr where
    p: "p \<in> set (inorder s)" "sub_at p s = Nd pl p pr"
      "(left pn = Some k \<and> pl = sub_at k s \<and> right pn \<noteq> Some k) \<or>
       (right pn = Some k \<and> pr = sub_at k s \<and> left pn \<noteq> Some k)"
    by auto
  have rp: "root t \<noteq> Some p"
    using well_formed_root [OF wf hp(1) p(1)] hp(2) by auto
  from sub_at_parent [OF tr d p(1) rp hp] hg obtain gl gr where
    g: "g \<in> set (inorder s)" "sub_at g s = Nd gl g gr"
      "is_tree (mem t) (Some g) (left gn) gl" "is_tree (mem t) (Some g) (right gn) gr"
      "(left gn = Some p \<and> gl = sub_at p s \<and> right gn \<noteq> Some p) \<or>
       (right gn = Some p \<and> gr = sub_at p s \<and> left gn \<noteq> Some p)"
    by auto
  from sub_at_root [OF k] obtain kl kr where ks: "sub_at k s = Nd kl k kr" by auto
  from grandparent_config [OF wf k hk hp] have ne: "k \<noteq> p" "k \<noteq> g" "p \<noteq> g" by auto
  from alt consider
      (red) u where "left gn = Some u \<and> right gn = Some p \<or> right gn = Some u \<and> left gn = Some p"
        "?c u = RED" "j = g" "s' = s" "?c' = ?c(u := BLACK, p := BLACK, g := RED)"
    | (ro) "right gn = Some p" "\<forall>u. left gn = Some u \<longrightarrow> ?c u = BLACK"
        "right pn = Some k" "j = k" "s' = rotate_left_at g s" "?c' = ?c(p := BLACK, g := RED)"
    | (ri) "right gn = Some p" "\<forall>u. left gn = Some u \<longrightarrow> ?c u = BLACK"
        "left pn = Some k" "j = p" "s' = rotate_left_at g (rotate_right_at p s)"
        "?c' = ?c(k := BLACK, g := RED)"
    | (lo) "left gn = Some p" "\<forall>u. right gn = Some u \<longrightarrow> ?c u = BLACK"
        "left pn = Some k" "j = k" "s' = rotate_right_at g s" "?c' = ?c(p := BLACK, g := RED)"
    | (li) "left gn = Some p" "\<forall>u. right gn = Some u \<longrightarrow> ?c u = BLACK"
        "right pn = Some k" "j = p" "s' = rotate_right_at g (rotate_left_at p s)"
        "?c' = ?c(k := BLACK, g := RED)"
    by blast
  then show ?thesis
  proof cases
    case red
    have kroot: "is_root (Some k) pl \<or> is_root (Some k) pr"
      using p(3) ks by auto
    have sh: "gl = Nd pl p pr \<and> (\<exists>ul ur. gr = Nd ul u ur) \<or>
              gr = Nd pl p pr \<and> (\<exists>ul ur. gl = Nd ul u ur)"
      using red(1)
    proof
      assume a: "left gn = Some u \<and> right gn = Some p"
      with g(5) p(2) have "gr = Nd pl p pr" by auto
      moreover from a g(3) have "\<exists>ul ur. gl = Nd ul u ur" by (cases gl) auto
      ultimately show ?thesis by simp
    next
      assume a: "right gn = Some u \<and> left gn = Some p"
      with g(5) p(2) have "gl = Nd pl p pr" by auto
      moreover from a g(4) have "\<exists>ul ur. gr = Nd ul u ur" by (cases gr) auto
      ultimately show ?thesis by simp
    qed
    then obtain ul ur where
      sh': "gl = Nd ul u ur \<and> gr = Nd pl p pr \<or> gl = Nd pl p pr \<and> gr = Nd ul u ur"
      by blast
    have "balanced ?c' s \<and> no_red_red (Some g) ?c' s"
      by (rule recolour_shape [OF d g(2) sh' kroot bal nrr cp red(2) red(5)])
    moreover have "?c' g = RED" using red(5) by simp
    ultimately show ?thesis using red(3,4) by simp
  next
    case ro
    from ro(1) g(5) p(2) have gr: "gr = Nd pl p pr" by auto
    from ro(3) p(3) ks have pr: "is_root (Some k) pr" by auto
    have ub: "rootcol ?c gl = BLACK"
      using ro(2) by (intro is_tree_rootcol [OF g(3)]) auto
    have sub: "sub_at g s = Nd gl g (Nd pl p pr)" using g(2) gr by simp
    have "balanced ?c' (rotate_left_at g s) \<and> no_red_red None ?c' (rotate_left_at g s)"
      by (rule outer_right_shape [OF d sub pr bal nrr ub cp ro(6)])
    moreover have "?c' k = RED" using ro(6) ck ne by simp
    ultimately show ?thesis using ro(4,5) by (simp add: no_red_red_None)
  next
    case ri
    from ri(1) g(5) p(2) have gr: "gr = Nd pl p pr" by auto
    from ri(3) p(3) ks have pl: "pl = Nd kl k kr" by auto
    have ub: "rootcol ?c gl = BLACK"
      using ri(2) by (intro is_tree_rootcol [OF g(3)]) auto
    have sub: "sub_at g s = Nd gl g (Nd (Nd kl k kr) p pr)" using g(2) gr pl by simp
    have "balanced ?c' (rotate_left_at g (rotate_right_at p s)) \<and>
          no_red_red None ?c' (rotate_left_at g (rotate_right_at p s))"
      by (rule inner_right_shape [OF d sub bal nrr ub cp ck ri(6)])
    moreover have "?c' p = RED" using ri(6) cp ne by simp
    ultimately show ?thesis using ri(4,5) by (simp add: no_red_red_None)
  next
    case lo
    from lo(1) g(5) p(2) have gl: "gl = Nd pl p pr" by auto
    from lo(3) p(3) ks have pl: "is_root (Some k) pl" by auto
    have ub: "rootcol ?c gr = BLACK"
      using lo(2) by (intro is_tree_rootcol [OF g(4)]) auto
    have sub: "sub_at g s = Nd (Nd pl p pr) g gr" using g(2) gl by simp
    have "balanced ?c' (rotate_right_at g s) \<and> no_red_red None ?c' (rotate_right_at g s)"
      by (rule outer_left_shape [OF d sub pl bal nrr ub cp lo(6)])
    moreover have "?c' k = RED" using lo(6) ck ne by simp
    ultimately show ?thesis using lo(4,5) by (simp add: no_red_red_None)
  next
    case li
    from li(1) g(5) p(2) have gl: "gl = Nd pl p pr" by auto
    from li(3) p(3) ks have pr: "pr = Nd kl k kr" by auto
    have ub: "rootcol ?c gr = BLACK"
      using li(2) by (intro is_tree_rootcol [OF g(4)]) auto
    have sub: "sub_at g s = Nd (Nd pl p (Nd kl k kr)) g gr" using g(2) gl pr by simp
    have "balanced ?c' (rotate_right_at g (rotate_left_at p s)) \<and>
          no_red_red None ?c' (rotate_right_at g (rotate_left_at p s))"
      by (rule inner_left_shape [OF d sub bal nrr ub cp ck li(6)])
    moreover have "?c' p = RED" using li(6) cp ne by simp
    ultimately show ?thesis using li(4,5) by (simp add: no_red_red_None)
  qed
qed

text \<open>Where the loop of the fix-up stops: below a black parent, or at the root.\<close>

lemma no_red_red_black_parent:
  assumes wf: "well_formed t s" and k: "k \<in> set (inorder s)"
    and hk: "mem t k = Some kn" "parent kn = Some p"
    and hp: "mem t p = Some pn" "color pn = BLACK"
    and bal: "balanced (col (mem t)) s" and nrr: "no_red_red (Some k) (col (mem t)) s"
  shows "no_red_red None (col (mem t)) s"
proof -
  let ?c = "col (mem t)"
  from wf have tr: "is_tree (mem t) None (root t) s" and d: "distinct (inorder s)"
    by (auto simp: well_formed_def)
  have rk: "root t \<noteq> Some k"
    using well_formed_root [OF wf hk(1) k] hk(2) by auto
  from sub_at_parent [OF tr d k rk hk] hp(1) obtain pl pr where
    p: "p \<in> set (inorder s)" "sub_at p s = Nd pl p pr"
      "(left pn = Some k \<and> pl = sub_at k s \<and> right pn \<noteq> Some k) \<or>
       (right pn = Some k \<and> pr = sub_at k s \<and> left pn \<noteq> Some k)"
    by auto
  from sub_at_root [OF k] obtain kl kr where ks: "sub_at k s = Nd kl k kr" by auto
  have dp: "distinct (inorder (Nd pl p pr))"
    using sub_at_distinct [OF d, of p] p(2) by simp
  have cp: "?c p = BLACK" using hp by (simp add: col_Some)
  have kroot: "is_root (Some k) pl \<or> is_root (Some k) pr" using p(3) ks by auto
  have kin: "k \<in> set (inorder (Nd pl p pr))" using kroot by (auto dest: is_root_in)
  have kpl: "k \<notin> set (inorder pl) \<or> is_root (Some k) pl"
    using kroot dp by (auto dest: is_root_in)
  have kpr: "k \<notin> set (inorder pr) \<or> is_root (Some k) pr"
    using kroot dp by (auto dest: is_root_in)
  have bp: "balanced ?c (Nd pl p pr)" using balanced_sub_at [OF bal, of p] p(2) by simp
  have np: "no_red_red (Some k) ?c (Nd pl p pr)"
    using no_red_red_sub_at [OF nrr, of p] p(2) by simp
  have "no_red_red None ?c pl = no_red_red (Some k) ?c pl"
    using unchanged [of pl ?c ?c "Some k" None] dp kpl by auto
  moreover have "no_red_red None ?c pr = no_red_red (Some k) ?c pr"
    using unchanged [of pr ?c ?c "Some k" None] dp kpr by auto
  ultimately have loc: "balanced ?c (Nd pl p pr) \<and> bheight ?c (Nd pl p pr) = bheight ?c (Nd pl p pr) \<and>
      no_red_red None ?c (Nd pl p pr)"
    using bp np cp by simp
  have "balanced ?c (subst_at p (Nd pl p pr) s) \<and> no_red_red None ?c (subst_at p (Nd pl p pr) s)"
    by (rule replace_below [OF d p(2) bal nrr kin _ _ loc]) (use cp in auto)
  moreover have "subst_at p (Nd pl p pr) s = s"
    using subst_at_sub_at_id [of p s] p(2) by simp
  ultimately show ?thesis by simp
qed

lemma no_red_red_at_root:
  assumes "well_formed t s" and "root t = Some j" and "no_red_red (Some j) c s"
  shows "no_red_red None c s"
proof -
  from assms(1,2) have "is_root (Some j) s" and d: "distinct (inorder s)"
    by (cases s; auto simp: well_formed_def)+
  then show ?thesis
    using unchanged [of s c c "Some j" None] assms(3) by auto
qed

lemma length_sub_at_le: "length (inorder (sub_at x s)) \<le> length (inorder s)"
  by (induction s) auto

lemma well_formed_root_Some:
  "well_formed t s \<Longrightarrow> x \<in> set (inorder s) \<Longrightarrow> \<exists>r rn. root t = Some r \<and> mem t r = Some rn \<and> r \<in> set (inorder s)"
  by (cases s) (auto simp: well_formed_def)

lemma fixInsertion_loop_correct:
  assumes "well_formed t s" and "root_black t" and "k \<in> set (inorder s)" and "root t \<noteq> Some k"
  shows "\<exists>t' s'. fixInsertion_loop (Some k) t = Some t' \<and> well_formed t' s' \<and>
     inorder s' = inorder s \<and> brk t' = brk t \<and>
     (\<forall>a. map_option data (mem t' a) = map_option data (mem t a)) \<and>
     (col (mem t) k = RED \<and> balanced (col (mem t)) s \<and> no_red_red (Some k) (col (mem t)) s \<longrightarrow>
      balanced (col (mem t')) s' \<and> no_red_red None (col (mem t')) s')"
  using assms
proof (induction "length (inorder s) - length (inorder (sub_at k s))" arbitrary: k t rule: less_induct)
  case less
  note wf = less.prems(1) and rb = less.prems(2) and k = less.prems(3) and rk = less.prems(4)
  from wf have tr: "is_tree (mem t) None (root t) s" by (simp add: well_formed_def)
  from is_tree_mem [OF tr k] obtain kn where hk: "mem t k = Some kn" by auto
  from well_formed_root [OF wf hk k] rk obtain p where kp: "parent kn = Some p" by auto
  from is_tree_parent [OF tr k rk hk] kp obtain pn where
    hp: "mem t p = Some pn" and pin: "p \<in> set (inorder s)" by auto
  show ?case
  proof (cases "color pn = RED")
    case False
    with hk kp hp have "fixInsertion_loop (Some k) t = Some t"
      by (subst fixInsertion_loop.simps) simp
    moreover have "balanced (col (mem t)) s \<and> no_red_red (Some k) (col (mem t)) s \<longrightarrow>
        no_red_red None (col (mem t)) s"
      using no_red_red_black_parent [OF wf k hk kp hp] False by simp
    ultimately show ?thesis using wf by auto
  next
    case True
    have "root t \<noteq> Some p"
      using rb True hp by (auto simp: root_black_def)
    with well_formed_root [OF wf hp pin] obtain g where pg: "parent pn = Some g" by auto
    from grandparent_config [OF wf k hk kp hp pg] obtain gn where
      hg: "mem t g = Some gn" and side: "left gn = Some p \<and> right gn \<noteq> Some p \<or> right gn = Some p \<and> left gn \<noteq> Some p"
      by auto
    have "\<exists>k' t'. fixInsertion_body (Some k) t = Some (k', t') \<and> insfix_post t s k k' t'"
    proof (cases "right gn = Some p")
      case True
      show ?thesis by (rule fixInsertion_body_right [OF wf rb k hk kp hp pg hg True])
    next
      case False
      with side have lp: "left gn = Some p" by auto
      show ?thesis by (rule fixInsertion_body_left [OF wf rb k hk kp hp pg hg lp])
    qed
    then obtain k' t' where body: "fixInsertion_body (Some k) t = Some (k', t')"
      and post: "insfix_post t s k k' t'" by auto
    from post obtain s' j where j: "k' = Some j" "well_formed t' s'" "inorder s' = inorder s"
      "brk t' = brk t" "\<forall>a. map_option data (mem t' a) = map_option data (mem t a)"
      "j \<in> set (inorder s')"
      and step: "insfix_step t s k j t' s'"
      and alt: "(s' = s \<and> root t' = root t \<and>
          length (inorder (sub_at k s)) < length (inorder (sub_at j s)) \<and>
          (root t' \<noteq> Some j \<longrightarrow> root_black t'))
         \<or> (root_black t' \<and>
             (\<exists>jn q qn. mem t' j = Some jn \<and> parent jn = Some q \<and> mem t' q = Some qn \<and> color qn = BLACK))"
      unfolding insfix_post_def by blast
    have cpar: "\<forall>kn' p'. mem t k = Some kn' \<longrightarrow> parent kn' = Some p' \<longrightarrow> col (mem t) p' = RED"
      using hk kp hp True by (auto simp: col_Some)
    have cols: "col (mem t) k = RED \<and> balanced (col (mem t)) s \<and>
        no_red_red (Some k) (col (mem t)) s \<longrightarrow>
        balanced (col (mem t')) s' \<and> no_red_red (Some j) (col (mem t')) s' \<and> col (mem t') j = RED"
      using insfix_step_colours [OF wf k step _ _ _ cpar] by blast
    have unfold: "fixInsertion_loop (Some k) t =
        (if Some j = root t' then Some t' else fixInsertion_loop (Some j) t')"
      using hk kp hp True body j(1)
      by (subst fixInsertion_loop.simps) simp
    show ?thesis
    proof (cases "Some j = root t'")
      case True
      then have "no_red_red (Some j) (col (mem t')) s' \<longrightarrow> no_red_red None (col (mem t')) s'"
        using no_red_red_at_root [OF j(2), of j] by auto
      with True unfold j cols show ?thesis by auto
    next
      case False
      note nroot = this
      from alt show ?thesis
      proof
        assume a: "s' = s \<and> root t' = root t \<and>
          length (inorder (sub_at k s)) < length (inorder (sub_at j s)) \<and>
          (root t' \<noteq> Some j \<longrightarrow> root_black t')"
        with nroot have rb': "root_black t'" and rj: "root t' \<noteq> Some j" by auto
        have m: "length (inorder s) - length (inorder (sub_at j s))
            < length (inorder s) - length (inorder (sub_at k s))"
          using a length_sub_at_le [of j s] by linarith
        from a j have wf': "well_formed t' s" and jin: "j \<in> set (inorder s)" by auto
        from less.hyps [OF m wf' rb' jin rj] obtain t'' s'' where
          "fixInsertion_loop (Some j) t' = Some t''" "well_formed t'' s''"
          "inorder s'' = inorder s" "brk t'' = brk t'"
          "\<forall>a. map_option data (mem t'' a) = map_option data (mem t' a)"
          "col (mem t') j = RED \<and> balanced (col (mem t')) s \<and> no_red_red (Some j) (col (mem t')) s \<longrightarrow>
             balanced (col (mem t'')) s'' \<and> no_red_red None (col (mem t'')) s''"
          by blast
        with unfold nroot j cols a show ?thesis by auto
      next
        assume "root_black t' \<and>
             (\<exists>jn q qn. mem t' j = Some jn \<and> parent jn = Some q \<and> mem t' q = Some qn \<and> color qn = BLACK)"
        then obtain jn q qn where q: "mem t' j = Some jn" "parent jn = Some q" "mem t' q = Some qn"
          "color qn = BLACK" by auto
        then have "fixInsertion_loop (Some j) t' = Some t'"
          by (subst fixInsertion_loop.simps) simp
        moreover have "balanced (col (mem t')) s' \<and> no_red_red (Some j) (col (mem t')) s' \<longrightarrow>
            no_red_red None (col (mem t')) s'"
          using no_red_red_black_parent [OF j(2,6) q] by simp
        ultimately show ?thesis using unfold nroot j cols by auto
      qed
    qed
  qed
qed

lemma blacken_root:
  assumes d: "distinct (inorder s)" and r: "is_root (Some r) s"
    and bal: "balanced c s" and nrr: "no_red_red None c s"
  shows "balanced (c(r := BLACK)) s \<and> no_red_red None (c(r := BLACK)) s \<and>
         rootcol (c(r := BLACK)) s = BLACK"
proof -
  from r obtain l rr where s: "s = Nd l r rr" by (cases s) auto
  let ?c' = "c(r := BLACK)"
  have L: "balanced ?c' l = balanced c l \<and> bheight ?c' l = bheight c l \<and>
         rootcol ?c' l = rootcol c l \<and> no_red_red None ?c' l = no_red_red None c l"
    using d s by (intro unchanged) auto
  have R: "balanced ?c' rr = balanced c rr \<and> bheight ?c' rr = bheight c rr \<and>
         rootcol ?c' rr = rootcol c rr \<and> no_red_red None ?c' rr = no_red_red None c rr"
    using d s by (intro unchanged) auto
  show ?thesis using bal nrr L R s by simp
qed

lemma fixInsertionViolations_correct:
  assumes "well_formed t s" and "root_black t" and "k \<in> set (inorder s)" and "root t \<noteq> Some k"
  shows "\<exists>t' s'. fixInsertionViolations (Some k) t = Some t' \<and> well_formed t' s' \<and>
     inorder s' = inorder s \<and> brk t' = brk t \<and> root_black t' \<and>
     (\<forall>a. map_option data (mem t' a) = map_option data (mem t a)) \<and>
     (col (mem t) k = RED \<and> balanced (col (mem t)) s \<and> no_red_red (Some k) (col (mem t)) s \<longrightarrow>
      balanced (col (mem t')) s' \<and> no_red_red None (col (mem t')) s')"
proof -
  from fixInsertion_loop_correct [OF assms] obtain t1 s1 where
    t1: "fixInsertion_loop (Some k) t = Some t1" "well_formed t1 s1"
      "inorder s1 = inorder s" "brk t1 = brk t"
      "\<forall>a. map_option data (mem t1 a) = map_option data (mem t a)"
      "col (mem t) k = RED \<and> balanced (col (mem t)) s \<and> no_red_red (Some k) (col (mem t)) s \<longrightarrow>
        balanced (col (mem t1)) s1 \<and> no_red_red None (col (mem t1)) s1"
    by blast
  from assms(3) t1(3) have "k \<in> set (inorder s1)" by simp
  from well_formed_root_Some [OF t1(2) this] obtain r rn where
    r: "root t1 = Some r" "mem t1 r = Some rn" by auto
  let ?t' = "t1\<lparr>mem := (mem t1)(r \<mapsto> rn\<lparr>color := BLACK\<rparr>)\<rparr>"
  have res: "fixInsertionViolations (Some k) t = Some ?t'"
    using t1(1) r by (simp add: fixInsertionViolations_def store_Some)
  have lk: "\<And>a. map_option links (mem ?t' a) = map_option links (mem t1 a)"
    using r by (simp add: links_def)
  have wf': "well_formed ?t' s1"
    by (rule well_formed_links [OF t1(2) lk]) simp
  have rb': "root_black ?t'" using r by (simp add: root_black_def)
  have dt: "\<forall>a. map_option data (mem ?t' a) = map_option data (mem t a)"
  proof
    fix a
    from t1(5) have "map_option data (mem t1 a) = map_option data (mem t a)" by blast
    with r show "map_option data (mem ?t' a) = map_option data (mem t a)"
      by (cases "a = r") auto
  qed
  have root1: "is_root (Some r) s1" and d1: "distinct (inorder s1)"
    using t1(2) r(1) by (cases s1; auto simp: well_formed_def)+
  have cols: "balanced (col (mem t1)) s1 \<and> no_red_red None (col (mem t1)) s1 \<longrightarrow>
      balanced (col (mem ?t')) s1 \<and> no_red_red None (col (mem ?t')) s1"
    using blacken_root [OF d1 root1, of "col (mem t1)"] by simp
  show ?thesis
    using res wf' t1(3,4,6) rb' dt cols by (intro exI [of _ ?t'] exI [of _ s1]) simp
qed

lemma insert_descend_shape:
  "is_tree (mem t) par cur s \<Longrightarrow>
   insert_descend cmp v cur q t = Some (descend_shape (mem t) cmp v q s)"
proof (induction s arbitrary: par cur q)
  case Tip
  then show ?case by (subst insert_descend.simps) simp
next
  case (Nd l a r)
  then obtain an where an: "cur = Some a" "mem t a = Some an"
    "is_tree (mem t) (Some a) (left an) l" "is_tree (mem t) (Some a) (right an) r"
    by auto
  show ?case
    using an Nd.IH(1) [OF an(3)] Nd.IH(2) [OF an(4)]
    by (subst insert_descend.simps) simp
qed

lemma descend_shape_in:
  "is_tree h par cur s \<Longrightarrow> s \<noteq> Tip \<Longrightarrow> \<exists>p. descend_shape h cmp v q s = Some p \<and> p \<in> set (inorder s)"
proof (induction s arbitrary: par cur q)
  case Tip
  then show ?case by simp
next
  case (Nd l a r)
  then obtain an where an: "cur = Some a" "h a = Some an"
    "is_tree h (Some a) (left an) l" "is_tree h (Some a) (right an) r"
    by auto
  show ?case
  proof (cases "cmp v (data an)")
    case True
    show ?thesis
    proof (cases "l = Tip")
      case True
      with an \<open>cmp v (data an)\<close> show ?thesis by simp
    next
      case False
      from Nd.IH(1) [OF an(3) False, of "Some a"] an True show ?thesis by auto
    qed
  next
    case False
    show ?thesis
    proof (cases "r = Tip")
      case True
      with an \<open>\<not> cmp v (data an)\<close> show ?thesis by simp
    next
      case False
      from Nd.IH(2) [OF an(4) False, of "Some a"] an \<open>\<not> cmp v (data an)\<close> show ?thesis by auto
    qed
  qed
qed

lemma inorder_bst_insert_set:
  "is_tree h par cur s \<Longrightarrow> set (inorder (bst_insert h cmp v n s)) = {n} \<union> set (inorder s)"
proof (induction s arbitrary: par cur)
  case Tip
  then show ?case by simp
next
  case (Nd l a r)
  then obtain an where an: "cur = Some a" "h a = Some an"
    "is_tree h (Some a) (left an) l" "is_tree h (Some a) (right an) r"
    by auto
  show ?case
    using an Nd.IH(1) [OF an(3)] Nd.IH(2) [OF an(4)]
    by (cases "cmp v (data an)") auto
qed

lemma is_tree_frame2:
  assumes "is_tree h par p s" and "n \<notin> set (inorder s)" and "q \<notin> set (inorder s)"
    and "\<And>a. a \<noteq> n \<Longrightarrow> a \<noteq> q \<Longrightarrow> h' a = h a"
  shows "is_tree h' par p s"
proof (rule is_tree_frame [OF assms(1)])
  fix a assume "a \<in> set (inorder s)"
  with assms(2,3) have "a \<noteq> n" "a \<noteq> q" by auto
  then show "h' a = h a" by (rule assms(4))
qed

lemma inorder_bst_insert_distinct:
  "is_tree h par cur s \<Longrightarrow> distinct (inorder s) \<Longrightarrow> n \<notin> set (inorder s) \<Longrightarrow>
   distinct (inorder (bst_insert h cmp v n s))"
proof (induction s arbitrary: par cur)
  case Tip
  then show ?case by simp
next
  case (Nd l a r)
  then obtain an where an: "cur = Some a" "h a = Some an"
    "is_tree h (Some a) (left an) l" "is_tree h (Some a) (right an) r"
    by auto
  from Nd show ?case
    using an inorder_bst_insert_set [OF an(3), of cmp v n] inorder_bst_insert_set [OF an(4), of cmp v n]
    by auto
qed

text \<open>Linking the new node below the node where the descent ended.\<close>

lemma is_tree_bst_insert:
  assumes "is_tree h par cur s" and "s \<noteq> Tip" and "distinct (inorder s)" and "n \<notin> set (inorder s)"
    and "descend_shape h cmp v q s = Some p" and "h p = Some pn"
    and "h' n = Some \<lparr>parent = Some p, right = None, left = None, data = v, color = c\<rparr>"
    and "h' p = Some (if cmp v (data pn) then pn\<lparr>left := Some n\<rparr> else pn\<lparr>right := Some n\<rparr>)"
    and "\<And>a. a \<noteq> n \<Longrightarrow> a \<noteq> p \<Longrightarrow> h' a = h a"
  shows "is_tree h' par cur (bst_insert h cmp v n s)"
  using assms(1-5)
proof (induction s arbitrary: par cur q)
  case Tip
  then show ?case by simp
next
  case (Nd l a r)
  then obtain an where an: "cur = Some a" "h a = Some an" "parent an = par"
    "is_tree h (Some a) (left an) l" "is_tree h (Some a) (right an) r"
    by auto
  from Nd.prems have na: "n \<noteq> a" and nl: "n \<notin> set (inorder l)" and nr: "n \<notin> set (inorder r)"
    and dl: "distinct (inorder l)" and dr: "distinct (inorder r)"
    and al: "a \<notin> set (inorder l)" and ar: "a \<notin> set (inorder r)"
    and lr: "set (inorder l) \<inter> set (inorder r) = {}"
    by auto
  show ?case
  proof (cases "cmp v (data an)")
    case True
    note c = this
    with Nd.prems(5) an have dl': "descend_shape h cmp v (Some a) l = Some p" by simp
    show ?thesis
    proof (cases "l = Tip")
      case True
      with dl' have pa: "p = a" by simp
      with an assms(6) have "pn = an" by simp
      with pa c assms(8) have h'a: "h' a = Some (an\<lparr>left := Some n\<rparr>)" by simp
      have "is_tree h' (Some a) (right an) r"
        using ar pa by (intro is_tree_frame2 [OF an(5) nr _ assms(9)]) auto
      with h'a an c True pa assms(7) show ?thesis by simp
    next
      case False
      from descend_shape_in [OF an(4) False, of cmp v "Some a"] dl' have pl: "p \<in> set (inorder l)"
        by auto
      with al lr have "p \<noteq> a" "p \<notin> set (inorder r)" by auto
      with na assms(9) have h'a: "h' a = h a" by simp
      have "is_tree h' (Some a) (right an) r"
        using \<open>p \<notin> set (inorder r)\<close> by (intro is_tree_frame2 [OF an(5) nr _ assms(9)]) auto
      moreover have "is_tree h' (Some a) (left an) (bst_insert h cmp v n l)"
        by (rule Nd.IH(1) [OF an(4) False dl nl dl'])
      ultimately show ?thesis using h'a an c by simp
    qed
  next
    case False
    note c = this
    with Nd.prems(5) an have dr': "descend_shape h cmp v (Some a) r = Some p" by simp
    show ?thesis
    proof (cases "r = Tip")
      case True
      with dr' have pa: "p = a" by simp
      with an assms(6) have "pn = an" by simp
      with pa c assms(8) have h'a: "h' a = Some (an\<lparr>right := Some n\<rparr>)" by simp
      have "is_tree h' (Some a) (left an) l"
        using al pa by (intro is_tree_frame2 [OF an(4) nl _ assms(9)]) auto
      with h'a an c True pa assms(7) show ?thesis by simp
    next
      case False
      from descend_shape_in [OF an(5) False, of cmp v "Some a"] dr' have pr: "p \<in> set (inorder r)"
        by auto
      with ar lr have "p \<noteq> a" "p \<notin> set (inorder l)" by auto
      with na assms(9) have h'a: "h' a = h a" by simp
      have "is_tree h' (Some a) (left an) l"
        using \<open>p \<notin> set (inorder l)\<close> by (intro is_tree_frame2 [OF an(4) nl _ assms(9)]) auto
      moreover have "is_tree h' (Some a) (right an) (bst_insert h cmp v n r)"
        by (rule Nd.IH(2) [OF an(5) False dr nr dr'])
      ultimately show ?thesis using h'a an c by simp
    qed
  qed
qed

lemma bst_insert_cong:
  "(\<And>a. a \<in> set (inorder s) \<Longrightarrow> h' a = h a) \<Longrightarrow> bst_insert h' cmp v n s = bst_insert h cmp v n s"
  by (induction s) (auto split: option.splits)

lemma descend_shape_cong:
  "(\<And>a. a \<in> set (inorder s) \<Longrightarrow> h' a = h a) \<Longrightarrow> descend_shape h' cmp v q s = descend_shape h cmp v q s"
  by (induction s arbitrary: q) (auto split: option.splits)

text \<open>A red leaf linked at the place of the descent: only the edge into it can be red on both
  ends.\<close>

lemma bst_insert_colours:
  assumes "is_tree h par q s" and "n \<notin> set (inorder s)"
    and "balanced c s" and "no_red_red None c s"
    and "\<And>a. a \<in> set (inorder s) \<Longrightarrow> c' a = c a" and "c' n = RED"
  shows "balanced c' (bst_insert h cmp v n s) \<and>
         bheight c' (bst_insert h cmp v n s) = bheight c s \<and>
         no_red_red (Some n) c' (bst_insert h cmp v n s) \<and>
         (rootcol c s = BLACK \<longrightarrow> rootcol c' (bst_insert h cmp v n s) = BLACK \<or>
            is_root (Some n) (bst_insert h cmp v n s))"
  using assms
proof (induction s arbitrary: par q)
  case Tip
  then show ?case by simp
next
  case (Nd l a r)
  from Nd.prems(1) obtain an where an: "h a = Some an"
    and tl: "is_tree h (Some a) (left an) l" and tr: "is_tree h (Some a) (right an) r"
    by auto
  have ca: "c' a = c a" using Nd.prems(5) by simp
  have cl: "\<And>b. b \<in> set (inorder l) \<Longrightarrow> c' b = c b" using Nd.prems(5) by simp
  have cr: "\<And>b. b \<in> set (inorder r) \<Longrightarrow> c' b = c b" using Nd.prems(5) by simp
  have nl: "n \<notin> set (inorder l)" and nr: "n \<notin> set (inorder r)" and na: "n \<noteq> a"
    using Nd.prems(2) by auto
  have L: "balanced c' l = balanced c l" "bheight c' l = bheight c l" "rootcol c' l = rootcol c l"
    "no_red_red (Some n) c' l = no_red_red None c l"
    using cl nl balanced_cong [of l c' c] bheight_cong [of l c' c] rootcol_cong [of l c' c]
      no_red_red_cong [of l c' c None "Some n"] by auto
  have R: "balanced c' r = balanced c r" "bheight c' r = bheight c r" "rootcol c' r = rootcol c r"
    "no_red_red (Some n) c' r = no_red_red None c r"
    using cr nr balanced_cong [of r c' c] bheight_cong [of r c' c] rootcol_cong [of r c' c]
      no_red_red_cong [of r c' c None "Some n"] by auto
  have nrl: "\<not> is_root (Some n) l" "\<not> is_root (Some n) r"
    using nl nr by (auto dest: is_root_in)
  show ?case
  proof (cases "cmp v (data an)")
    case True
    have IH: "balanced c' (bst_insert h cmp v n l) \<and>
         bheight c' (bst_insert h cmp v n l) = bheight c l \<and>
         no_red_red (Some n) c' (bst_insert h cmp v n l) \<and>
         (rootcol c l = BLACK \<longrightarrow> rootcol c' (bst_insert h cmp v n l) = BLACK \<or>
            is_root (Some n) (bst_insert h cmp v n l))"
      using Nd.prems(3,4) cl nl Nd.prems(6) by (intro Nd.IH(1) [OF tl]) auto
    show ?thesis using IH L R an True ca Nd.prems(3,4) nrl by auto
  next
    case False
    have IH: "balanced c' (bst_insert h cmp v n r) \<and>
         bheight c' (bst_insert h cmp v n r) = bheight c r \<and>
         no_red_red (Some n) c' (bst_insert h cmp v n r) \<and>
         (rootcol c r = BLACK \<longrightarrow> rootcol c' (bst_insert h cmp v n r) = BLACK \<or>
            is_root (Some n) (bst_insert h cmp v n r))"
      using Nd.prems(3,4) cr nr Nd.prems(6) by (intro Nd.IH(2) [OF tr]) auto
    show ?thesis using IH L R an False ca Nd.prems(3,4) nrl by auto
  qed
qed

lemma insert_correct:
  assumes "rb_linked t s"
  shows "\<exists>t' s'. insert cmp v t = Some t' \<and> rb_linked t' s' \<and>
     inorder s' = inorder (bst_insert (mem t) cmp v (brk t) s) \<and>
     brk t' = Suc (brk t) \<and>
     map_option data (mem t' (brk t)) = Some v \<and>
     (\<forall>a. a \<noteq> brk t \<longrightarrow> map_option data (mem t' a) = map_option data (mem t a)) \<and>
     (balanced (col (mem t)) s \<and> no_red_red None (col (mem t)) s \<longrightarrow>
      balanced (col (mem t')) s' \<and> no_red_red None (col (mem t')) s')"
proof -
  let ?n = "brk t"
  let ?new = "\<lparr>parent = None, right = None, left = None, data = v, color = RED\<rparr>"
  let ?h0 = "(mem t)(?n \<mapsto> ?new)"
  let ?t0 = "t\<lparr>mem := ?h0, brk := Suc ?n\<rparr>"
  from assms have wf: "well_formed t s" and rb: "root_black t"
    and alloc: "\<forall>a \<in> set (inorder s). a < brk t"
    by (auto simp: rb_linked_def)
  from wf have tr: "is_tree (mem t) None (root t) s" and d: "distinct (inorder s)"
    by (auto simp: well_formed_def)
  from alloc have fresh: "?n \<notin> set (inorder s)" by auto
  show ?thesis
  proof (cases "root t")
    case None
    with tr have s: "s = Tip" by simp
    let ?t' = "t\<lparr>mem := (mem t)(?n \<mapsto> ?new\<lparr>color := BLACK\<rparr>), brk := Suc ?n, root := Some ?n\<rparr>"
    have "insert cmp v t = Some ?t'"
      using None by (simp add: insert_def createNode_def store_Some)
    moreover have "rb_linked ?t' (Nd Tip ?n Tip)"
      by (simp add: rb_linked_def well_formed_def root_black_def)
    moreover have "balanced (col (mem ?t')) (Nd Tip ?n Tip) \<and>
        no_red_red None (col (mem ?t')) (Nd Tip ?n Tip)"
      by simp
    ultimately show ?thesis using s by (intro exI [of _ ?t'] exI [of _ "Nd Tip ?n Tip"]) simp
  next
    case (Some r)
    with tr have sne: "s \<noteq> Tip" by auto
    have tr0: "is_tree ?h0 None (root t) s"
      using fresh by (intro is_tree_frame [OF tr]) auto
    from descend_shape_in [OF tr0 sne, of cmp v None] obtain p where
      p: "descend_shape ?h0 cmp v None s = Some p" "p \<in> set (inorder s)" by auto
    from is_tree_mem [OF tr p(2)] obtain pn where pn: "mem t p = Some pn" by auto
    from p(2) fresh have pnn: "p \<noteq> ?n" by auto
    have desc: "insert_descend cmp v (root t) None ?t0 = Some (Some p)"
      using insert_descend_shape [of ?t0 None "root t" s cmp v None] tr0 p(1) by simp
    let ?pn' = "if cmp v (data pn) then pn\<lparr>left := Some ?n\<rparr> else pn\<lparr>right := Some ?n\<rparr>"
    let ?h2 = "(mem t)(?n \<mapsto> ?new\<lparr>parent := Some p\<rparr>, p \<mapsto> ?pn')"
    let ?t2 = "t\<lparr>brk := Suc ?n, mem := ?h2\<rparr>"
    let ?s1 = "bst_insert ?h0 cmp v ?n s"
    have ins: "insert cmp v t = fixInsertionViolations (Some ?n) ?t2"
      using Some desc pn pnn
      by (simp add: insert_def createNode_def store_Some)
    have h0p: "?h0 p = Some pn" using pn pnn by simp
    have tr2: "is_tree ?h2 None (root t) ?s1"
      by (rule is_tree_bst_insert [OF tr0 sne d fresh p(1) h0p, where c = RED]) (use pnn in auto)
    have s1eq: "?s1 = bst_insert (mem t) cmp v ?n s"
      using fresh by (intro bst_insert_cong) auto
    have d1: "distinct (inorder ?s1)"
      by (rule inorder_bst_insert_distinct [OF tr0 d fresh])
    have set1: "set (inorder ?s1) = {?n} \<union> set (inorder s)"
      by (rule inorder_bst_insert_set [OF tr0])
    have wf2: "well_formed ?t2 ?s1"
      using tr2 d1 by (simp add: well_formed_def)
    have rn: "r \<noteq> ?n"
      using Some tr fresh by (auto dest: is_tree_root_in)
    have rb2: "root_black ?t2"
      using rb Some rn pn by (auto simp: root_black_def)
    have nin: "?n \<in> set (inorder ?s1)" using set1 by simp
    have nroot: "root ?t2 \<noteq> Some ?n" using Some rn by simp
    have c2: "\<And>a. a \<in> set (inorder s) \<Longrightarrow> col ?h2 a = col (mem t) a"
      using fresh pn by (auto simp: col_def)
    have cn: "col ?h2 ?n = RED" using pnn by (simp add: col_def)
    have ins_cols: "balanced (col (mem t)) s \<and> no_red_red None (col (mem t)) s \<longrightarrow>
        balanced (col ?h2) ?s1 \<and> no_red_red (Some ?n) (col ?h2) ?s1"
    proof
      assume a: "balanced (col (mem t)) s \<and> no_red_red None (col (mem t)) s"
      have "balanced (col ?h2) ?s1 \<and> bheight (col ?h2) ?s1 = bheight (col (mem t)) s \<and>
          no_red_red (Some ?n) (col ?h2) ?s1 \<and>
          (rootcol (col (mem t)) s = BLACK \<longrightarrow> rootcol (col ?h2) ?s1 = BLACK \<or>
             is_root (Some ?n) ?s1)"
      proof (rule bst_insert_colours [where c = "col (mem t)" and c' = "col ?h2", OF tr0 fresh])
        show "balanced (col (mem t)) s" "no_red_red None (col (mem t)) s" using a by simp_all
        show "col ?h2 ?n = RED" by (rule cn)
        show "\<And>a. a \<in> set (inorder s) \<Longrightarrow> col ?h2 a = col (mem t) a" by (rule c2)
      qed
      then show "balanced (col ?h2) ?s1 \<and> no_red_red (Some ?n) (col ?h2) ?s1" by simp
    qed
    from fixInsertionViolations_correct [OF wf2 rb2 nin nroot] obtain t' s' where
      t': "fixInsertionViolations (Some ?n) ?t2 = Some t'" "well_formed t' s'"
        "inorder s' = inorder ?s1" "brk t' = brk ?t2" "root_black t'"
        "\<forall>a. map_option data (mem t' a) = map_option data (mem ?t2 a)"
        "col (mem ?t2) ?n = RED \<and> balanced (col (mem ?t2)) ?s1 \<and>
           no_red_red (Some ?n) (col (mem ?t2)) ?s1 \<longrightarrow>
         balanced (col (mem t')) s' \<and> no_red_red None (col (mem t')) s'"
      by blast
    have cols: "balanced (col (mem t)) s \<and> no_red_red None (col (mem t)) s \<longrightarrow>
        balanced (col (mem t')) s' \<and> no_red_red None (col (mem t')) s'"
      using ins_cols cn t'(7) by simp
    have "rb_linked t' s'"
      using t'(2,3,4,5) set1 alloc by (auto simp: rb_linked_def)
    moreover have "map_option data (mem t' ?n) = Some v"
      using t'(6) pnn by simp
    moreover have "\<forall>a. a \<noteq> ?n \<longrightarrow> map_option data (mem t' a) = map_option data (mem t a)"
      using t'(6) pn by auto
    ultimately show ?thesis
      using ins t'(1,3,4) s1eq cols by (intro exI [of _ t'] exI [of _ s']) simp
  qed
qed

lemma strict_weak_order_asym: "strict_weak_order cmp \<Longrightarrow> cmp a b \<Longrightarrow> \<not> cmp b a"
  unfolding strict_weak_order_def by blast

lemma strict_weak_order_le_trans:
  "strict_weak_order cmp \<Longrightarrow> \<not> cmp b a \<Longrightarrow> \<not> cmp c b \<Longrightarrow> \<not> cmp c a"
  unfolding strict_weak_order_def by metis

lemma size_node_is_tree:
  "is_tree (mem t) par p s \<Longrightarrow> size_node p t = Some (length (inorder s))"
proof (induction s arbitrary: par p)
  case Tip
  then show ?case by (subst size_node.simps) simp
next
  case (Nd l a r)
  then obtain an where an: "p = Some a" "mem t a = Some an"
    "is_tree (mem t) (Some a) (left an) l" "is_tree (mem t) (Some a) (right an) r"
    by auto
  show ?case
    using an Nd.IH(1) [OF an(3)] Nd.IH(2) [OF an(4)]
    by (subst size_node.simps) simp
qed

lemma size_tree_well_formed: "well_formed t s \<Longrightarrow> size_tree t = Some (length (inorder s))"
  using size_node_is_tree [of t None "root t" s] by (simp add: size_tree_def well_formed_def)

lemma inorder_bst_insert_length:
  "is_tree h par cur s \<Longrightarrow> length (inorder (bst_insert h cmp v n s)) = Suc (length (inorder s))"
proof (induction s arbitrary: par cur)
  case Tip
  then show ?case by simp
next
  case (Nd l a r)
  then obtain an where an: "cur = Some a" "h a = Some an"
    "is_tree h (Some a) (left an) l" "is_tree h (Some a) (right an) r"
    by auto
  show ?case
    using an Nd.IH(1) [OF an(3)] Nd.IH(2) [OF an(4)]
    by (cases "cmp v (data an)") auto
qed

lemma map_filter_Some:
  "(\<And>a. a \<in> set xs \<Longrightarrow> g a = Some (f a)) \<Longrightarrow> List.map_filter g xs = map f xs"
  by (induction xs) (auto simp: map_filter_simps)

lemma inorder_values_map:
  "(\<And>a. a \<in> set (inorder s) \<Longrightarrow> map_option data (mem t a) = Some (f a)) \<Longrightarrow>
   inorder_values t s = map f (inorder s)"
  unfolding inorder_values_def by (rule map_filter_Some)

lemma inorder_bst_insert_subset:
  "set (inorder (bst_insert h cmp v n s)) \<subseteq> {n} \<union> set (inorder s)"
  by (induction s) (auto split: option.splits if_splits)

lemma sorted_bst_insert:
  assumes swo: "strict_weak_order cmp"
    and "\<And>a. a \<in> set (inorder s) \<Longrightarrow> \<exists>an. h a = Some an \<and> data an = f a"
    and "f n = v"
    and "sorted_wrt (\<lambda>a b. \<not> cmp (f b) (f a)) (inorder s)"
  shows "sorted_wrt (\<lambda>a b. \<not> cmp (f b) (f a)) (inorder (bst_insert h cmp v n s))"
  using assms(2,4)
proof (induction s)
  case Tip
  then show ?case by simp
next
  case (Nd l a r)
  from Nd.prems(1) [of a] obtain an where an: "h a = Some an" "data an = f a" by auto
  from Nd.prems(2) have sl: "sorted_wrt (\<lambda>a b. \<not> cmp (f b) (f a)) (inorder l)"
    and sr: "sorted_wrt (\<lambda>a b. \<not> cmp (f b) (f a)) (inorder r)"
    and la: "\<forall>x \<in> set (inorder l). \<not> cmp (f a) (f x)"
    and ar: "\<forall>y \<in> set (inorder r). \<not> cmp (f y) (f a)"
    and lr: "\<forall>x \<in> set (inorder l). \<forall>y \<in> set (inorder r). \<not> cmp (f y) (f x)"
    by (auto simp: sorted_wrt_append)
  have IHl: "sorted_wrt (\<lambda>a b. \<not> cmp (f b) (f a)) (inorder (bst_insert h cmp v n l))"
    using Nd.prems(1) sl by (intro Nd.IH(1)) auto
  have IHr: "sorted_wrt (\<lambda>a b. \<not> cmp (f b) (f a)) (inorder (bst_insert h cmp v n r))"
    using Nd.prems(1) sr by (intro Nd.IH(2)) auto
  show ?case
  proof (cases "cmp v (f a)")
    case True
    then have va: "\<not> cmp (f a) v" by (rule strict_weak_order_asym [OF swo])
    have vr: "\<forall>y \<in> set (inorder r). \<not> cmp (f y) v"
      using ar va strict_weak_order_le_trans [OF swo] by blast
    have "\<forall>x \<in> set (inorder (bst_insert h cmp v n l)). \<not> cmp (f a) (f x) \<and>
        (\<forall>y \<in> set (inorder r). \<not> cmp (f y) (f x))"
      using inorder_bst_insert_subset [of h cmp v n l] la lr va vr assms(3) by auto
    with IHl sr ar an True show ?thesis
      by (auto simp: sorted_wrt_append)
  next
    case False
    have lv: "\<forall>x \<in> set (inorder l). \<not> cmp v (f x)"
      using la False strict_weak_order_le_trans [OF swo] by blast
    have "\<forall>y \<in> set (inorder (bst_insert h cmp v n r)). \<not> cmp (f y) (f a) \<and>
        (\<forall>x \<in> set (inorder l). \<not> cmp (f y) (f x))"
      using inorder_bst_insert_subset [of h cmp v n r] ar lr False lv assms(3) by auto
    with IHr sl la an False show ?thesis
      by (auto simp: sorted_wrt_append)
  qed
qed

lemma mset_bst_insert:
  assumes "\<And>a. a \<in> set (inorder s) \<Longrightarrow> \<exists>an. h a = Some an"
  shows "mset (inorder (bst_insert h cmp v n s)) = add_mset n (mset (inorder s))"
  using assms
proof (induction s)
  case Tip
  then show ?case by simp
next
  case (Nd l a r)
  from Nd.prems [of a] obtain an where an: "h a = Some an" by auto
  have "mset (inorder (bst_insert h cmp v n l)) = add_mset n (mset (inorder l))"
    using Nd.prems by (intro Nd.IH(1)) auto
  moreover have "mset (inorder (bst_insert h cmp v n r)) = add_mset n (mset (inorder r))"
    using Nd.prems by (intro Nd.IH(2)) auto
  ultimately show ?case using an by simp
qed

text \<open>One insertion into a linked tree: what it leaves.\<close>

lemma insert_values:
  assumes "rb_linked t s"
  shows "\<exists>t' s'. insert cmp v t = Some t' \<and> rb_linked t' s' \<and>
     length (inorder s') = Suc (length (inorder s)) \<and>
     mset (inorder_values t' s') = add_mset v (mset (inorder_values t s)) \<and>
     (strict_weak_order cmp \<longrightarrow> sorted_wrt (\<lambda>a b. \<not> cmp b a) (inorder_values t s) \<longrightarrow>
        sorted_wrt (\<lambda>a b. \<not> cmp b a) (inorder_values t' s'))"
proof -
  from assms have wf: "well_formed t s" and alloc: "\<forall>a \<in> set (inorder s). a < brk t"
    by (auto simp: rb_linked_def)
  from wf have tr: "is_tree (mem t) None (root t) s" by (simp add: well_formed_def)
  let ?n = "brk t"
  let ?s1 = "bst_insert (mem t) cmp v ?n s"
  define f where "f a = (if a = ?n then v else data (the (mem t a)))" for a
  from insert_correct [OF assms, of cmp v] obtain t' s' where
    t': "insert cmp v t = Some t'" "rb_linked t' s'" "inorder s' = inorder ?s1"
      "map_option data (mem t' ?n) = Some v"
      "\<forall>a. a \<noteq> ?n \<longrightarrow> map_option data (mem t' a) = map_option data (mem t a)"
    by blast
  have old: "\<And>a. a \<in> set (inorder s) \<Longrightarrow> \<exists>an. mem t a = Some an \<and> data an = f a"
    using is_tree_mem [OF tr] alloc by (fastforce simp: f_def)
  have fn: "f ?n = v" by (simp add: f_def)
  have v0: "inorder_values t s = map f (inorder s)"
    using old by (intro inorder_values_map) auto
  have "\<And>a. a \<in> set (inorder s') \<Longrightarrow> map_option data (mem t' a) = Some (f a)"
  proof -
    fix a assume "a \<in> set (inorder s')"
    with t'(3) inorder_bst_insert_subset [of "mem t" cmp v ?n s]
    have "a = ?n \<or> a \<in> set (inorder s)" by auto
    then show "map_option data (mem t' a) = Some (f a)"
    proof
      assume "a = ?n"
      with t'(4) fn show ?thesis by simp
    next
      assume a: "a \<in> set (inorder s)"
      with alloc have "a \<noteq> ?n" by auto
      with t'(5) old [OF a] show ?thesis by auto
    qed
  qed
  then have v1: "inorder_values t' s' = map f (inorder ?s1)"
    using t'(3) inorder_values_map [of s' t' f] by simp
  have len: "length (inorder s') = Suc (length (inorder s))"
    using t'(3) inorder_bst_insert_length [OF tr] by simp
  have ms: "mset (inorder_values t' s') = add_mset v (mset (inorder_values t s))"
  proof -
    have "mset (inorder ?s1) = add_mset ?n (mset (inorder s))"
      using old by (intro mset_bst_insert) auto
    then have "mset (map f (inorder ?s1)) = add_mset (f ?n) (mset (map f (inorder s)))"
      by (metis image_mset_add_mset mset_map)
    with v0 v1 fn show ?thesis by simp
  qed
  have so: "strict_weak_order cmp \<longrightarrow> sorted_wrt (\<lambda>a b. \<not> cmp b a) (inorder_values t s) \<longrightarrow>
        sorted_wrt (\<lambda>a b. \<not> cmp b a) (inorder_values t' s')"
  proof (intro impI)
    assume swo: "strict_weak_order cmp" and "sorted_wrt (\<lambda>a b. \<not> cmp b a) (inorder_values t s)"
    then have "sorted_wrt (\<lambda>a b. \<not> cmp (f b) (f a)) (inorder s)"
      using v0 by (simp add: sorted_wrt_map)
    from sorted_bst_insert [OF swo old fn this]
    show "sorted_wrt (\<lambda>a b. \<not> cmp b a) (inorder_values t' s')"
      using v1 by (simp add: sorted_wrt_map)
  qed
  from t'(1,2) len ms so show ?thesis by blast
qed

lemma rb_linked_empty: "rb_linked empty_tree Tip"
  by (simp add: rb_linked_def well_formed_def root_black_def empty_tree_def)

lemma insert_all_values:
  assumes "rb_linked t s"
  shows "\<exists>t' s'. insert_all cmp vs t = Some t' \<and> rb_linked t' s' \<and>
     length (inorder s') = length (inorder s) + length vs \<and>
     mset (inorder_values t' s') = mset vs + mset (inorder_values t s) \<and>
     (strict_weak_order cmp \<longrightarrow> sorted_wrt (\<lambda>a b. \<not> cmp b a) (inorder_values t s) \<longrightarrow>
        sorted_wrt (\<lambda>a b. \<not> cmp b a) (inorder_values t' s'))"
  using assms
proof (induction vs arbitrary: t s)
  case Nil
  then show ?case by auto
next
  case (Cons v vs)
  from insert_values [OF Cons.prems, of cmp v] obtain t1 s1 where
    t1: "insert cmp v t = Some t1" "rb_linked t1 s1"
      "length (inorder s1) = Suc (length (inorder s))"
      "mset (inorder_values t1 s1) = add_mset v (mset (inorder_values t s))"
      "strict_weak_order cmp \<longrightarrow> sorted_wrt (\<lambda>a b. \<not> cmp b a) (inorder_values t s) \<longrightarrow>
        sorted_wrt (\<lambda>a b. \<not> cmp b a) (inorder_values t1 s1)"
    by blast
  from Cons.IH [OF t1(2)] obtain t' s' where
    t': "insert_all cmp vs t1 = Some t'" "rb_linked t' s'"
      "length (inorder s') = length (inorder s1) + length vs"
      "mset (inorder_values t' s') = mset vs + mset (inorder_values t1 s1)"
      "strict_weak_order cmp \<longrightarrow> sorted_wrt (\<lambda>a b. \<not> cmp b a) (inorder_values t1 s1) \<longrightarrow>
        sorted_wrt (\<lambda>a b. \<not> cmp b a) (inorder_values t' s')"
    by blast
  from t1 t' show ?case
    by (intro exI [of _ t'] exI [of _ s']) simp
qed

subsection \<open>Insertions keep the tree red-black\<close>

lemma balanced_path_blacks: "balanced c s \<Longrightarrow> set (path_blacks c s) = {bheight c s}"
  by (induction s) auto

lemma sub_at_notin: "x \<notin> set (inorder s) \<Longrightarrow> sub_at x s = Tip"
  by (induction s) auto

lemma path_blacks_balanced:
  "(\<forall>x. \<exists>n. set (path_blacks c (sub_at x s)) = {n}) \<Longrightarrow> distinct (inorder s) \<Longrightarrow> balanced c s"
proof (induction s)
  case Tip
  then show ?case by simp
next
  case (Nd l a r)
  have l: "\<forall>x. \<exists>n. set (path_blacks c (sub_at x l)) = {n}"
  proof
    fix x
    show "\<exists>n. set (path_blacks c (sub_at x l)) = {n}"
    proof (cases "x \<in> set (inorder l)")
      case True
      with Nd.prems(2) have "sub_at x (Nd l a r) = sub_at x l" by auto
      with Nd.prems(1) show ?thesis by metis
    next
      case False
      then have "sub_at x l = Tip" by (rule sub_at_notin)
      then show ?thesis by simp
    qed
  qed
  have r: "\<forall>x. \<exists>n. set (path_blacks c (sub_at x r)) = {n}"
  proof
    fix x
    show "\<exists>n. set (path_blacks c (sub_at x r)) = {n}"
    proof (cases "x \<in> set (inorder r)")
      case True
      with Nd.prems(2) have "sub_at x (Nd l a r) = sub_at x r" by auto
      with Nd.prems(1) show ?thesis by metis
    next
      case False
      then have "sub_at x r = Tip" by (rule sub_at_notin)
      then show ?thesis by simp
    qed
  qed
  have bl: "balanced c l" and br: "balanced c r"
    using Nd.IH l r Nd.prems(2) by auto
  from Nd.prems(1) obtain n where "set (path_blacks c (sub_at a (Nd l a r))) = {n}" by blast
  then have n: "set (path_blacks c (Nd l a r)) = {n}" by simp
  let ?f = "\<lambda>n. n + (if c a = BLACK then 1 else 0 :: nat)"
  have "?f (bheight c l) \<in> set (path_blacks c (Nd l a r))"
    using balanced_path_blacks [OF bl] by auto
  moreover have "?f (bheight c r) \<in> set (path_blacks c (Nd l a r))"
    using balanced_path_blacks [OF br] by auto
  ultimately have "?f (bheight c l) = n" "?f (bheight c r) = n" unfolding n by simp_all
  then have "?f (bheight c l) = ?f (bheight c r)" by simp
  then have "bheight c l = bheight c r" by simp
  with bl br show ?case by simp
qed

lemma red_black_empty: "red_black empty_tree Tip"
  by (simp add: red_black_def rb_linked_empty)

lemma insert_red_black:
  assumes "red_black t s"
  shows "\<exists>t' s'. insert cmp v t = Some t' \<and> red_black t' s' \<and>
     length (inorder s') = Suc (length (inorder s))"
proof -
  from assms have rl: "rb_linked t s" and inv: "balanced (col (mem t)) s"
    "no_red_red None (col (mem t)) s" by (auto simp: red_black_def)
  from rl have tr: "is_tree (mem t) None (root t) s"
    by (simp add: rb_linked_def well_formed_def)
  from insert_correct [OF rl, of cmp v] inv obtain t' s' where
    t': "insert cmp v t = Some t'" "rb_linked t' s'"
      "inorder s' = inorder (bst_insert (mem t) cmp v (brk t) s)"
      "balanced (col (mem t')) s'" "no_red_red None (col (mem t')) s'"
    by blast
  have "length (inorder s') = Suc (length (inorder s))"
    using t'(3) inorder_bst_insert_length [OF tr] by simp
  with t' show ?thesis by (auto simp: red_black_def)
qed

lemma insert_all_red_black:
  assumes "red_black t s"
  shows "\<exists>t' s'. insert_all cmp vs t = Some t' \<and> red_black t' s' \<and>
     length (inorder s') = length (inorder s) + length vs"
  using assms
proof (induction vs arbitrary: t s)
  case Nil
  then show ?case by auto
next
  case (Cons v vs)
  from insert_red_black [OF Cons.prems, of cmp v] obtain t1 s1 where
    t1: "insert cmp v t = Some t1" "red_black t1 s1"
      "length (inorder s1) = Suc (length (inorder s))"
    by blast
  from Cons.IH [OF t1(2)] obtain t' s' where
    "insert_all cmp vs t1 = Some t'" "red_black t' s'"
    "length (inorder s') = length (inorder s1) + length vs"
    by blast
  with t1 show ?case by (intro exI [of _ t'] exI [of _ s']) simp
qed

text \<open>
  Insertions alone keep the tree red-black: from the empty tree, every sequence of \<open>insert\<close>
  returns a linked tree whose root is black, in which no red node has a red child, and in which
  the paths from a node down to null all pass the same number of black nodes.
\<close>

theorem insert_only_red_black:
  "\<exists>t s. insert_all cmp vs empty_tree = Some t \<and> well_formed t s \<and> root_black t \<and>
     size_tree t = Some (length vs) \<and>
     no_red_red None (col (mem t)) s \<and>
     (\<forall>x. set (path_blacks (col (mem t)) (sub_at x s)) = {bheight (col (mem t)) (sub_at x s)})"
proof -
  from insert_all_red_black [OF red_black_empty, of cmp vs] obtain t s where
    t: "insert_all cmp vs empty_tree = Some t" "red_black t s"
      "length (inorder s) = length vs"
    by auto
  from t(2) have wf: "well_formed t s" and rb: "root_black t"
    and bal: "balanced (col (mem t)) s" and nrr: "no_red_red None (col (mem t)) s"
    by (auto simp: red_black_def rb_linked_def)
  have "\<forall>x. set (path_blacks (col (mem t)) (sub_at x s)) = {bheight (col (mem t)) (sub_at x s)}"
    using balanced_sub_at [OF bal] by (auto intro!: balanced_path_blacks)
  moreover have "size_tree t = Some (length vs)"
    using size_tree_well_formed [OF wf] t(3) by simp
  ultimately show ?thesis using t(1) wf rb nrr by blast
qed

subsection \<open>Traversal of a well-formed tree\<close>

lemma leftmost_is_tree:
  "is_tree (mem t) par (Some a) s \<Longrightarrow> leftmost (Some a) t = Some (Some (hd (inorder s)))"
proof (induction s arbitrary: par a)
  case Tip
  then show ?case by simp
next
  case (Nd l b r)
  then obtain an where an: "b = a" "mem t a = Some an"
    "is_tree (mem t) (Some a) (left an) l" "is_tree (mem t) (Some a) (right an) r"
    by auto
  show ?case
  proof (cases l)
    case Tip
    with an show ?thesis by (subst leftmost.simps) simp
  next
    case (Nd ll c lr)
    with an(3) have lc: "left an = Some c" by simp
    from Nd.IH(1) [of "Some a" c] an(3) lc have "leftmost (Some c) t = Some (Some (hd (inorder l)))"
      by simp
    with an lc Nd show ?thesis by (subst leftmost.simps) (simp add: hd_append)
  qed
qed

lemma is_tree_Tip_iff: "is_tree h par p s \<Longrightarrow> (s = Tip) = (p = None)"
  by (cases s) auto

lemma next_inorder_subtree:
  assumes "is_tree (mem t) par q u" and "distinct (inorder u)"
  shows "(\<forall>i. Suc i < length (inorder u) \<longrightarrow>
            next_inorder (Some (inorder u ! i)) t = Some (Some (inorder u ! Suc i)))
       \<and> (u \<noteq> Tip \<longrightarrow> fld right (Some (last (inorder u))) t = Some None \<and>
            climb (Some (last (inorder u))) t = climb q t)"
  using assms
proof (induction u arbitrary: par q)
  case Tip
  then show ?case by simp
next
  case (Nd l a r)
  then obtain an where an: "q = Some a" "mem t a = Some an"
    "is_tree (mem t) (Some a) (left an) l" "is_tree (mem t) (Some a) (right an) r"
    by auto
  from Nd.prems(2) have dl: "distinct (inorder l)" and dr: "distinct (inorder r)"
    and al: "a \<notin> set (inorder l)" and ar: "a \<notin> set (inorder r)"
    and lr: "set (inorder l) \<inter> set (inorder r) = {}" by auto
  note IHl = Nd.IH(1) [OF an(3) dl] and IHr = Nd.IH(2) [OF an(4) dr]
  let ?L = "inorder l" and ?R = "inorder r"
  have last_part: "fld right (Some (last (?L @ a # ?R))) t = Some None \<and>
            climb (Some (last (?L @ a # ?R))) t = climb (Some a) t"
  proof (cases r)
    case Tip
    with an show ?thesis by simp
  next
    case (Nd rl c rr)
    with an(4) obtain cn where c: "right an = Some c" "mem t c = Some cn" "parent cn = Some a"
      by auto
    have "climb (Some c) t = climb (Some a) t"
      using c an by (subst climb.simps) simp
    with IHr Nd c show ?thesis by simp
  qed
  have next_part: "next_inorder (Some ((?L @ a # ?R) ! i)) t = Some (Some ((?L @ a # ?R) ! Suc i))"
    if i: "Suc i < length (?L @ a # ?R)" for i
  proof -
    consider "Suc i < length ?L" | "Suc i = length ?L" | "i = length ?L" | "i > length ?L"
      by linarith
    then show ?thesis
    proof cases
      case 1
      with IHl show ?thesis by (simp add: nth_append)
    next
      case 2
      then have ne: "l \<noteq> Tip" by auto
      then obtain ll c lr' where l: "l = Nd ll c lr'" by (cases l) auto
      with an(3) obtain cn where c: "left an = Some c" "mem t c = Some cn" "parent cn = Some a"
        by auto
      have cin: "c \<in> set ?L" using l by simp
      have "right an \<noteq> Some c"
      proof
        assume "right an = Some c"
        with an(4) have "c \<in> set ?R" by (auto dest: is_tree_root_in)
        with cin lr show False by auto
      qed
      then have "Some c \<noteq> right an" by auto
      with c an have cl: "climb (Some c) t = Some (Some c)"
        by (subst climb.simps) simp
      from IHl ne c have la: "fld right (Some (last ?L)) t = Some None"
        "climb (Some (last ?L)) t = climb (Some c) t" by auto
      from 2 have len: "length ?L = Suc i" by simp
      then have "?L \<noteq> []" by auto
      from last_conv_nth [OF this] len have ii: "?L ! i = last ?L" "i < length ?L"
        by simp_all
      from la(1) obtain xn where xn: "mem t (last ?L) = Some xn" "right xn = None" by auto
      have "next_inorder (Some (last ?L)) t = Some (Some a)"
        using xn la(2) cl c by (simp add: next_inorder_def)
      with 2 ii show ?thesis by (simp add: nth_append)
    next
      case 3
      with i have ne: "r \<noteq> Tip" by auto
      then obtain rl c rr where r: "r = Nd rl c rr" by (cases r) auto
      with an(4) have c: "right an = Some c" by auto
      from leftmost_is_tree [of t "Some a" c r] an(4) c
      have "leftmost (Some c) t = Some (Some (hd ?R))" by simp
      with an c have "next_inorder (Some a) t = Some (Some (hd ?R))"
        by (simp add: next_inorder_def)
      moreover have "hd ?R = ?R ! 0" using r by (simp add: hd_conv_nth)
      ultimately show ?thesis using 3 by (simp add: nth_append)
    next
      case 4
      then obtain j where j: "i = length ?L + Suc j" 
        by (metis add_Suc_right less_imp_Suc_add)
      with i have "Suc j < length ?R" by simp
      with IHr have "next_inorder (Some (?R ! j)) t = Some (Some (?R ! Suc j))" by simp
      with j show ?thesis by (simp add: nth_append)
    qed
  qed
  from last_part next_part an show ?case by simp
qed

lemma next_inorder_well_formed:
  assumes "well_formed t s" and "i < length (inorder s)"
  shows "next_inorder (Some (inorder s ! i)) t =
     Some (if Suc i < length (inorder s) then Some (inorder s ! Suc i) else None)"
proof -
  from assms(1) have tr: "is_tree (mem t) None (root t) s" and d: "distinct (inorder s)"
    by (auto simp: well_formed_def)
  from assms(2) have ne: "s \<noteq> Tip" by auto
  note sub = next_inorder_subtree [OF tr d]
  show ?thesis
  proof (cases "Suc i < length (inorder s)")
    case True
    with sub show ?thesis by simp
  next
    case False
    with assms(2) have len: "length (inorder s) = Suc i" by simp
    then have "inorder s \<noteq> []" by auto
    from last_conv_nth [OF this] len have il: "inorder s ! i = last (inorder s)" by simp
    from ne tr obtain l r a an where r: "s = Nd l a r" "root t = Some a" "mem t a = Some an" "parent an = None"
      by (cases s) auto
    then have "climb (Some a) t = Some (Some a)"
      by (subst climb.simps) simp
    with sub ne r have la: "fld right (Some (last (inorder s))) t = Some None"
      "climb (Some (last (inorder s))) t = Some (Some a)" by auto
    from la(1) obtain xn where xn: "mem t (last (inorder s)) = Some xn" "right xn = None" by auto
    have "next_inorder (Some (last (inorder s))) t = Some None"
      using xn la(2) r by (simp add: next_inorder_def)
    with il False show ?thesis by simp
  qed
qed

lemma walk_drop:
  assumes "well_formed t s"
  shows "i \<le> length (inorder s) \<Longrightarrow>
     walk (if i < length (inorder s) then Some (inorder s ! i) else None) t =
     Some (List.map_filter (\<lambda>a. map_option data (mem t a)) (drop i (inorder s)))"
proof (induction "length (inorder s) - i" arbitrary: i)
  case 0
  then show ?case by (subst walk.simps) (simp add: map_filter_simps)
next
  case (Suc n)
  then have i: "i < length (inorder s)" by simp
  from assms have tr: "is_tree (mem t) None (root t) s" by (simp add: well_formed_def)
  let ?x = "inorder s ! i"
  from i have "?x \<in> set (inorder s)" by simp
  from is_tree_mem [OF tr this] obtain xn where xn: "mem t ?x = Some xn" by auto
  have IH: "walk (if Suc i < length (inorder s) then Some (inorder s ! Suc i) else None) t =
     Some (List.map_filter (\<lambda>a. map_option data (mem t a)) (drop (Suc i) (inorder s)))"
    using Suc.hyps(2) i by (intro Suc.hyps(1)) auto
  have "walk (Some ?x) t =
     Some (data xn # List.map_filter (\<lambda>a. map_option data (mem t a)) (drop (Suc i) (inorder s)))"
    using xn next_inorder_well_formed [OF assms i] IH
    by (subst walk.simps) simp
  moreover have "drop i (inorder s) = ?x # drop (Suc i) (inorder s)"
    using i by (simp add: Cons_nth_drop_Suc)
  ultimately show ?case using i xn by (simp add: map_filter_simps)
qed

lemma inorder_traversal_well_formed:
  assumes "well_formed t s"
  shows "inorder_traversal t = Some (inorder_values t s)"
proof -
  from assms have tr: "is_tree (mem t) None (root t) s" by (simp add: well_formed_def)
  show ?thesis
  proof (cases s)
    case Tip
    with tr have "root t = None" by simp
    moreover have "walk None t = Some []" by (subst walk.simps) simp
    ultimately show ?thesis using Tip
      by (simp add: inorder_traversal_def first_def inorder_values_def map_filter_simps)
  next
    case (Nd l a r)
    with tr have r: "root t = Some a" by simp
    from leftmost_is_tree [of t None a s] tr r
    have "first t = Some (Some (hd (inorder s)))" by (simp add: first_def)
    moreover have "hd (inorder s) = inorder s ! 0" using Nd by (simp add: hd_conv_nth)
    moreover have "0 < length (inorder s)" using Nd by simp
    ultimately show ?thesis
      using walk_drop [OF assms, of 0] by (simp add: inorder_traversal_def inorder_values_def)
  qed
qed

lemma length_inorder_values:
  "is_tree (mem t) par p s \<Longrightarrow> length (inorder_values t s) = length (inorder s)"
proof -
  assume tr: "is_tree (mem t) par p s"
  have "inorder_values t s = map (\<lambda>a. data (the (mem t a))) (inorder s)"
    using is_tree_mem [OF tr] by (intro inorder_values_map) fastforce
  then show ?thesis by simp
qed

text \<open>
  On a well-formed tree the traversal from \<open>first()\<close> by \<open>next_inorder\<close> ends, gives
  the values in the in-order sequence of the shape, and visits \<open>size()\<close> nodes.
\<close>

lemma traversal_well_formed:
  assumes "well_formed t s"
  shows "inorder_traversal t = Some (inorder_values t s) \<and>
         size_tree t = Some (length (inorder_values t s))"
  using assms inorder_traversal_well_formed [OF assms] size_tree_well_formed [OF assms]
    length_inorder_values [of t None "root t" s]
  by (simp add: well_formed_def)

subsection \<open>What \<open>insert\<close> returns and creates\<close>

text \<open>
  C6, amended: \<open>insert\<close> returns no boolean. For every linked tree (well formed, with a
  black root) and every value, the call returns, hands back nothing, and leaves a
  linked tree with one node more: \<open>size()\<close> goes from the number of values of the
  traversal to its successor, and the traversal gains the value once, whether or not an
  equivalent value was stored. Every tree built by insertions into the empty tree is
  linked, and its \<open>size()\<close> is the number of insertions.
\<close>

theorem C6_insert_creates_node:
  "(rb_linked t s \<longrightarrow>
      (\<exists>t' s' xs. insert cmp v t = Some t' \<and> insert_returns cmp v t = Some Void \<and>
         rb_linked t' s' \<and>
         inorder_traversal t = Some xs \<and> size_tree t = Some (length xs) \<and>
         size_tree t' = Some (Suc (length xs)) \<and>
         map_option mset (inorder_traversal t') = Some (add_mset v (mset xs))))
   \<and> (\<exists>t s. insert_all cmp vs empty_tree = Some t \<and> rb_linked t s \<and>
         size_tree t = Some (length vs))"
proof (intro conjI impI)
  assume l: "rb_linked t s"
  from insert_values [OF l, of cmp v] obtain t' s' where
    t': "insert cmp v t = Some t'" "rb_linked t' s'"
      "length (inorder s') = Suc (length (inorder s))"
      "mset (inorder_values t' s') = add_mset v (mset (inorder_values t s))"
    by blast
  from l have wf: "well_formed t s" by (simp add: rb_linked_def)
  from t'(2) have wf': "well_formed t' s'" by (simp add: rb_linked_def)
  note a = traversal_well_formed [OF wf] and b = traversal_well_formed [OF wf']
  have "length (inorder_values t' s') = Suc (length (inorder_values t s))"
    using t'(4) by (metis size_add_mset size_mset)
  with a b t' show "\<exists>t' s' xs. insert cmp v t = Some t' \<and> insert_returns cmp v t = Some Void \<and>
         rb_linked t' s' \<and>
         inorder_traversal t = Some xs \<and> size_tree t = Some (length xs) \<and>
         size_tree t' = Some (Suc (length xs)) \<and>
         map_option mset (inorder_traversal t') = Some (add_mset v (mset xs))"
    by (intro exI [of _ t'] exI [of _ s'] exI [of _ "inorder_values t s"])
       (simp add: insert_returns_def)
next
  from insert_all_values [OF rb_linked_empty, of cmp vs] obtain t s where
    t: "insert_all cmp vs empty_tree = Some t" "rb_linked t s"
      "length (inorder s) = length (inorder Tip) + length vs"
    by blast
  then have "size_tree t = Some (length vs)"
    using size_tree_well_formed [of t s] by (simp add: rb_linked_def)
  with t show "\<exists>t s. insert_all cmp vs empty_tree = Some t \<and> rb_linked t s \<and>
         size_tree t = Some (length vs)"
    by blast
qed

theorem C6_insert_creates_node_witness:
  "rb_linked example_tree example_shape
   \<and> (\<exists>t' s'. insert (<) 20 example_tree = Some t' \<and> insert_returns (<) 20 example_tree = Some Void \<and>
         rb_linked t' s' \<and> inorder_traversal example_tree = Some [10, 20, 30] \<and>
         size_tree example_tree = Some 3 \<and> size_tree t' = Some 4 \<and>
         map_option mset (inorder_traversal t') = Some {#10, 20, 20, 30#})"
proof -
  have l: "rb_linked example_tree example_shape"
    by (simp add: rb_linked_def well_formed_def root_black_def example_tree_def example_shape_def)
  have v: "inorder_values example_tree example_shape = [10, 20, 30]"
    by (simp add: inorder_values_def example_tree_def example_shape_def map_filter_simps)
  from l have "well_formed example_tree example_shape" by (simp add: rb_linked_def)
  from traversal_well_formed [OF this] v
  have tr: "inorder_traversal example_tree = Some [10, 20, 30]" by simp
  from C6_insert_creates_node [of example_tree example_shape "(<)" 20 "[]"] l tr
  show ?thesis by (auto simp: add_mset_commute)
qed

subsection \<open>The in-order sequence after insertions\<close>

text \<open>
  C5, amended: let the comparator be a strict weak ordering. An insertion into a linked
  tree whose traversal (from \<open>first()\<close> by \<open>next_inorder\<close>) is non-decreasing (no
  value is before an earlier one under the comparator) returns and leaves a linked tree
  whose traversal is non-decreasing and holds the new value once more than before: a value
  equivalent to a stored one gets a node of its own. So after any sequence of insertions
  into the empty tree the traversal ends, visits \<open>size()\<close> nodes, is non-decreasing and
  holds exactly the inserted values, each as often as it was inserted.
\<close>

theorem C5_inorder_nondecreasing:
  assumes "strict_weak_order cmp"
  shows "(rb_linked t s \<and> inorder_traversal t = Some xs \<and> sorted_wrt (\<lambda>a b. \<not> cmp b a) xs \<longrightarrow>
      (\<exists>t' s' xs'. insert cmp v t = Some t' \<and> rb_linked t' s' \<and>
         inorder_traversal t' = Some xs' \<and>
         mset xs' = add_mset v (mset xs) \<and>
         sorted_wrt (\<lambda>a b. \<not> cmp b a) xs'))
   \<and> (\<exists>t s xs. insert_all cmp vs empty_tree = Some t \<and> rb_linked t s \<and>
         inorder_traversal t = Some xs \<and> size_tree t = Some (length xs) \<and>
         mset xs = mset vs \<and>
         sorted_wrt (\<lambda>a b. \<not> cmp b a) xs)"
proof (intro conjI impI)
  assume l: "rb_linked t s \<and> inorder_traversal t = Some xs \<and> sorted_wrt (\<lambda>a b. \<not> cmp b a) xs"
  then have rl: "rb_linked t s" by simp
  then have wf: "well_formed t s" by (simp add: rb_linked_def)
  from traversal_well_formed [OF wf] l have xs: "inorder_values t s = xs" by simp
  from insert_values [OF rl, of cmp v] l assms xs obtain t' s' where
    t': "insert cmp v t = Some t'" "rb_linked t' s'"
      "mset (inorder_values t' s') = add_mset v (mset xs)"
      "sorted_wrt (\<lambda>a b. \<not> cmp b a) (inorder_values t' s')"
    by blast
  from t'(2) have "well_formed t' s'" by (simp add: rb_linked_def)
  from traversal_well_formed [OF this] t'
  show "\<exists>t' s' xs'. insert cmp v t = Some t' \<and> rb_linked t' s' \<and>
         inorder_traversal t' = Some xs' \<and>
         mset xs' = add_mset v (mset xs) \<and>
         sorted_wrt (\<lambda>a b. \<not> cmp b a) xs'"
    by blast
next
  have e: "inorder_values (empty_tree :: 'a RBTree) Tip = []"
    by (simp add: inorder_values_def map_filter_simps)
  from insert_all_values [OF rb_linked_empty, of cmp vs] assms e obtain t s where
    t: "insert_all cmp vs empty_tree = Some t" "rb_linked t s"
      "mset (inorder_values t s) = mset vs"
      "sorted_wrt (\<lambda>a b. \<not> cmp b a) (inorder_values t s)"
    by auto
  from t(2) have "well_formed t s" by (simp add: rb_linked_def)
  from traversal_well_formed [OF this] t
  show "\<exists>t s xs. insert_all cmp vs empty_tree = Some t \<and> rb_linked t s \<and>
         inorder_traversal t = Some xs \<and> size_tree t = Some (length xs) \<and>
         mset xs = mset vs \<and>
         sorted_wrt (\<lambda>a b. \<not> cmp b a) xs"
    by blast
qed

theorem C5_inorder_nondecreasing_witness:
  "strict_weak_order ((<) :: int \<Rightarrow> int \<Rightarrow> bool)
   \<and> rb_linked example_tree example_shape
   \<and> inorder_traversal example_tree = Some [10, 20, 30]
   \<and> sorted_wrt (\<lambda>a b. \<not> b < a) [10, 20, 30 :: int]
   \<and> (\<exists>t' s' xs'. insert (<) 20 example_tree = Some t' \<and> rb_linked t' s' \<and>
         inorder_traversal t' = Some xs' \<and>
         mset xs' = {#10, 20, 20, 30#} \<and>
         sorted_wrt (\<lambda>a b. \<not> b < a) xs')
   \<and> (\<exists>t s xs. insert_all (<) [10, 10 :: int] empty_tree = Some t \<and> rb_linked t s \<and>
         inorder_traversal t = Some xs \<and> size_tree t = Some (length xs) \<and>
         mset xs = {#10, 10#} \<and>
         sorted_wrt (\<lambda>a b. \<not> b < a) xs)"
proof -
  have o: "strict_weak_order ((<) :: int \<Rightarrow> int \<Rightarrow> bool)"
    by (auto simp: strict_weak_order_def)
  have l: "rb_linked example_tree example_shape"
    by (simp add: rb_linked_def well_formed_def root_black_def example_tree_def example_shape_def)
  have v: "inorder_values example_tree example_shape = [10, 20, 30]"
    by (simp add: inorder_values_def example_tree_def example_shape_def map_filter_simps)
  from l have "well_formed example_tree example_shape" by (simp add: rb_linked_def)
  from traversal_well_formed [OF this] v
  have tr: "inorder_traversal example_tree = Some [10, 20, 30]" by simp
  have s: "sorted_wrt (\<lambda>a b. \<not> b < a) [10, 20, 30 :: int]" by simp
  from C5_inorder_nondecreasing [OF o, of example_tree example_shape "[10, 20, 30]" 20 "[10, 10]"] o l tr s
  show ?thesis by (auto simp: add_mset_commute)
qed

subsection \<open>Scenario of insert 10, 20, 30 and remove 20\<close>

text \<open>
  C7, as the spec states it, has the nodes 30 and 10 both black after the removal of 20.
  In the code the successor 30 is red, so \<open>originalColor\<close> is red and the fix-up does not
  run: the node 10, the left child of the new root, keeps its red colour.
\<close>

theorem C7_left_child_stays_red:
  "tree_10_30 \<bind> color_left_of_root = Some RED"
  by code_simp

text \<open>
  C7, amended: after the three insertions the root is 20 (address 1), black, with the red
  children 10 (address 0) and 30 (address 2). After the removal of 20 the root is 30,
  black, its left child is 10, red, \<open>size()\<close> is 2 and the traversal gives 10, 30.
\<close>

theorem C7_scenario:
  "map_option snapshot tree_10_20_30 = Some (Some 1,
     [Some \<lparr>parent = Some 1, right = None, left = None, data = 10, color = RED\<rparr>,
      Some \<lparr>parent = None, right = Some 2, left = Some 0, data = 20, color = BLACK\<rparr>,
      Some \<lparr>parent = Some 1, right = None, left = None, data = 30, color = RED\<rparr>])
   \<and> map_option snapshot tree_10_30 = Some (Some 2,
     [Some \<lparr>parent = Some 2, right = None, left = None, data = 10, color = RED\<rparr>,
      None,
      Some \<lparr>parent = None, right = None, left = Some 0, data = 30, color = BLACK\<rparr>])
   \<and> tree_10_30 \<bind> size_tree = Some 2
   \<and> tree_10_30 \<bind> inorder_traversal = Some [10, 30]"
  by code_simp

subsection \<open>\<open>next_inorder\<close> of a null pointer\<close>

text \<open>C10: for every tree, \<open>next_inorder\<close> of the null pointer returns the null pointer.\<close>

theorem C10_next_inorder_null: "next_inorder None t = Some None"
  by (simp add: next_inorder_def)


subsection \<open>Removal runs the fix-up on a null pointer\<close>

lemma fixDeleteViolations_null: "fixDeleteViolations None t = None"
  unfolding fixDeleteViolations_def
  by (subst fixDelete_loop.simps) (simp add: store_def)

text \<open>
  The removal of a black leaf has no result, whatever the tree: \<open>newNode\<close> is null and
  \<open>originalColor\<close> is black, so the fix-up runs on the null pointer.
\<close>

lemma remove_black_leaf:
  assumes "mem t a = Some n" and "left n = None" and "right n = None" and "color n = BLACK"
  shows "remove (Some a) t = None"
proof (cases "replaceNode (Some a) None t")
  case None
  with assms show ?thesis by (simp add: remove_def remove_unlink_def)
next
  case (Some t1)
  show ?thesis
  proof (cases "deleteNode (Some a) t1")
    case None
    with Some assms show ?thesis by (simp add: remove_def remove_unlink_def)
  next
    case (Some t2)
    with \<open>replaceNode (Some a) None t = Some t1\<close> assms show ?thesis
      by (simp add: remove_def remove_unlink_def fixDeleteViolations_null)
  qed
qed

text \<open>
  Inside the loop of the fix-up the sibling and its children are read with no test for
  null either: a round for a left child \<open>x\<close> has no result when \<open>x\<close> has no sibling, and
  when the sibling is black and has no left child.
\<close>

lemma fixDelete_body_null_sibling:
  assumes "mem t x = Some xn" and "parent xn = Some p" and "mem t p = Some pn"
    and "left pn = Some x" and "right pn = None"
  shows "fixDelete_body (Some x) t = None"
  using assms by (simp add: fixDelete_body_def)

lemma fixDelete_body_null_nephew:
  assumes "mem t x = Some xn" and "parent xn = Some p" and "mem t p = Some pn"
    and "left pn = Some x" and "right pn = Some s" and "mem t s = Some sn"
    and "color sn = BLACK" and "left sn = None"
  shows "fixDelete_body (Some x) t = None"
  using assms by (simp add: fixDelete_body_def)

text \<open>
  C4 asks that the deletion fix-up works when the node that replaced the removed one is
  null. \<open>fixDeleteViolations\<close> reads \<open>x->color\<close> in the condition of its loop when
  \<open>x\<close> is not the root, and writes \<open>x->color\<close> after the loop, with no test for null:
  on a null pointer it has no result, whatever the tree. So the removal of the only node
  of a tree (a black leaf: \<open>originalColor\<close> is black and \<open>newNode\<close> is null) has no
  result, through a node handle and through a value.
\<close>

theorem C4_fixDeleteViolations_null:
  "fixDeleteViolations None t = None
   \<and> tree_10 \<bind> first = Some (Some 0)
   \<and> tree_10 \<bind> recorded (Some 0) = Some (BLACK, None)
   \<and> tree_10 \<bind> remove (Some 0) = None
   \<and> tree_10 \<bind> remove_val (<) (=) 10 = None"
proof -
  have "fixDeleteViolations None t = None"
    by (rule fixDeleteViolations_null)
  moreover have "tree_10 \<bind> first = Some (Some 0)" by code_simp
  moreover have "tree_10 \<bind> recorded (Some 0) = Some (BLACK, None)" by code_simp
  moreover have "tree_10 \<bind> remove (Some 0) = None" by code_simp
  moreover have "tree_10 \<bind> remove_val (<) (=) 10 = None" by code_simp
  ultimately show ?thesis by blast
qed

subsection \<open>Search\<close>

text \<open>
  When the value of the root is neither \<open>==\<close> nor equivalent to the value looked for,
  \<open>search\<close> returns the root: the loop stops at once.
\<close>

lemma search_returns_root:
  assumes "root t = Some r" and "mem t r = Some rn" and "\<not> eq (data rn) val"
    and "cmp val (data rn) \<or> cmp (data rn) val"
  shows "search cmp eq val t = Some (Some r)"
  using assms
  by (simp add: search_def) (subst search_loop.simps, auto)

text \<open>
  C2 asks that \<open>search(v)\<close> returns a node equivalent to \<open>v\<close> when there is one and
  null otherwise, by the comparator alone. In the tree of 10, 20, 30 (root 20) the search
  for 10 returns the root, whose value is 20, and so does the search for 99, which is not
  in the tree: the loop goes on while the node is equivalent to the value, instead of
  until it is. With the parenthesis at the other place the search for 10 returns null.
  The root is compared with \<open>==\<close>, not with the comparator.
\<close>

theorem C2_search_misses:
  "tree_10_20_30 \<bind> search_data (<) (=) 10 = Some (Some 20)
   \<and> tree_10_20_30 \<bind> search_data (<) (=) 99 = Some (Some 20)
   \<and> tree_10_20_30 \<bind> search_data_int_alt 10 = Some None
   \<and> tree_10_20_30 \<bind> inorder_traversal = Some [10, 20, 30]"
  by code_simp

subsection \<open>Removal of a node with two children\<close>

text \<open>
  C3 asks that the successor takes the place of the removed node with its former left
  child, right child and colour. In the tree of 20, 10, 40, 30 the node 20 (address 0) has
  the children 10 (address 1) and 40 (address 2), and its successor 30 (address 3) is the
  left child of 40. After the removal of 20 the successor is the root, its left child is
  10 and its right child is 40, but the parent link of 40 points at 40 itself:
  \<open>successor->right->parent = node->right\<close> where the left side has
  \<open>successor->left->parent = successor\<close>.
\<close>

theorem C3_right_child_parent_link:
  "map_option snapshot tree_20_10_40_30 = Some (Some 0,
     [Some \<lparr>parent = None, right = Some 2, left = Some 1, data = 20, color = BLACK\<rparr>,
      Some \<lparr>parent = Some 0, right = None, left = None, data = 10, color = BLACK\<rparr>,
      Some \<lparr>parent = Some 0, right = None, left = Some 3, data = 40, color = BLACK\<rparr>,
      Some \<lparr>parent = Some 2, right = None, left = None, data = 30, color = RED\<rparr>])
   \<and> tree_20_10_40_30 \<bind> recorded (Some 0) = Some (RED, None)
   \<and> map_option snapshot tree_10_30_40 = Some (Some 3,
     [None,
      Some \<lparr>parent = Some 3, right = None, left = None, data = 10, color = BLACK\<rparr>,
      Some \<lparr>parent = Some 2, right = None, left = None, data = 40, color = BLACK\<rparr>,
      Some \<lparr>parent = None, right = Some 2, left = Some 1, data = 30, color = BLACK\<rparr>])"
  by code_simp

subsection \<open>Invariants after a sequence of operations\<close>

text \<open>
  C1 asks for the red-black invariants after every sequence of insertions and removals.
  After insert 20, 10, 40, 30, remove 20, insert 50, insert 60, every call having
  returned, the path root, left, left ends at null after two black nodes and the path
  root, right, left ends at null after one. The store shows why: the right child of the
  root 30 (address 3) is still 40 (address 2), and 40 is also the left child of its own
  right child 50 (address 4). The rotation at 40 followed the parent link of 40, which
  the removal had left pointing at 40 itself. Insertions alone do keep the invariants
  (\<open>insert_only_red_black\<close>); it is the removal that breaks them.
\<close>

theorem C1_black_height_broken:
  "tree_cyclic \<bind> blacks_from_root [L, L] = Some 2
   \<and> tree_cyclic \<bind> blacks_from_root [R, L] = Some 1
   \<and> map_option snapshot tree_cyclic = Some (Some 3,
     [None,
      Some \<lparr>parent = Some 3, right = None, left = None, data = 10, color = BLACK\<rparr>,
      Some \<lparr>parent = Some 4, right = Some 4, left = None, data = 40, color = RED\<rparr>,
      Some \<lparr>parent = None, right = Some 2, left = Some 1, data = 30, color = BLACK\<rparr>,
      Some \<lparr>parent = Some 2, right = Some 5, left = Some 2, data = 50, color = BLACK\<rparr>,
      Some \<lparr>parent = Some 4, right = None, left = None, data = 60, color = RED\<rparr>])"
  by code_simp

subsection \<open>Equivalent values\<close>

text \<open>
  C5 asks for a strictly increasing in-order sequence, an equivalent value being refused.
  \<open>insert\<close> has no test for an equivalent value: the second 10 becomes the right child
  of the first.
\<close>

theorem C5_equivalent_values_coexist:
  "tree_10_10 \<bind> inorder_traversal = Some [10, 10]
   \<and> tree_10_10 \<bind> size_tree = Some 2"
  by code_simp

text \<open>
  C6 asks for a boolean result that is true when a node was created. \<open>insert\<close> is
  declared \<open>void\<close>: the call that creates the first node of a tree does not hand back
  true, it hands back nothing; and so does the call that inserts 10 a second time, which
  creates a node as well.
\<close>

theorem C6_insert_returns_void:
  "insert_returns (<) (10::int) empty_tree \<noteq> Some (Bool True)
   \<and> insert_returns (<) (10::int) empty_tree = Some Void
   \<and> size_tree (empty_tree :: int RBTree) = Some 0
   \<and> tree_10 \<bind> size_tree = Some 1
   \<and> tree_10 \<bind> insert_returns (<) 10 = Some Void
   \<and> tree_10 \<bind> insert (<) 10 \<bind> size_tree = Some 2"
  by code_simp

subsection \<open>Traversal after a removal\<close>

text \<open>
  C9 asks that the traversal from \<open>first()\<close> by \<open>next_inorder\<close> visits \<open>size()\<close>
  nodes. In the tree left by the removal of 20 from 20, 10, 40, 30, \<open>size()\<close> is 3 and
  \<open>next_inorder\<close> of the node 40 (address 2) is that node again, since its parent link
  points at itself: the traversal 10, 30, 40, 40, ... never reaches null. (On a
  well-formed tree the traversal ends and visits \<open>size()\<close> nodes, see
  \<open>traversal_well_formed\<close>; the tree that \<open>remove\<close> leaves here is not well formed.)
\<close>

theorem C9_traversal_never_ends:
  "tree_10_30_40 \<bind> size_tree = Some 3
   \<and> tree_10_30_40 \<bind> first = Some (Some 1)
   \<and> tree_10_30_40 \<bind> next_inorder (Some 1) = Some (Some 3)
   \<and> tree_10_30_40 \<bind> next_inorder (Some 3) = Some (Some 2)
   \<and> tree_10_30_40 \<bind> next_inorder (Some 2) = Some (Some 2)
   \<and> tree_10_30_40 \<bind> inorder_traversal = None"
proof -
  have sz: "tree_10_30_40 \<bind> size_tree = Some 3" by code_simp
  have f: "tree_10_30_40 \<bind> first = Some (Some 1)" by code_simp
  have n1: "tree_10_30_40 \<bind> next_inorder (Some 1) = Some (Some 3)" by code_simp
  have n3: "tree_10_30_40 \<bind> next_inorder (Some 3) = Some (Some 2)" by code_simp
  have n2: "tree_10_30_40 \<bind> next_inorder (Some 2) = Some (Some 2)" by code_simp
  have d1: "tree_10_30_40 \<bind> fld data (Some 1) = Some 10" by code_simp
  have d3: "tree_10_30_40 \<bind> fld data (Some 3) = Some 30" by code_simp
  have d2: "tree_10_30_40 \<bind> fld data (Some 2) = Some 40" by code_simp
  from sz obtain t where t: "tree_10_30_40 = Some t"
    by (cases tree_10_30_40) auto
  have w2: "walk (Some 2) t = None"
  proof (cases "walk (Some 2) t")
    case None
    then show ?thesis .
  next
    case (Some xs)
    have "walk (Some 2) t = map_option ((#) 40) (walk (Some 2) t)"
      using n2 d2 unfolding t
      by (subst walk.simps) (simp add: map_option_case split: option.splits bind_splits)
    with Some have "xs = 40 # xs" by simp
    then show ?thesis by simp
  qed
  have w3: "walk (Some 3) t = None"
    using n3 d3 w2 unfolding t by (subst walk.simps) simp
  have w1: "walk (Some 1) t = None"
    using n1 d1 w3 unfolding t by (subst walk.simps) simp
  have "inorder_traversal t = None"
    using f w1 unfolding t by (simp add: inorder_traversal_def)
  with sz f n1 n3 n2 show ?thesis unfolding t by simp
qed

end
